theory Spec2Isabelle
  imports Main
begin

section \<open>The state table of the 21-state automaton (2.5D.py)\<close>

text \<open>
  Every state of the automaton is a dictionary with a display name, an RGB colour and a
  weight triple.  The triples are kept as products of integers; the module-level list
  \<open>states\<close> is transcribed entry by entry, in the order of the source.
\<close>

type_synonym vec3 = "int \<times> int \<times> int"

record state =
  name :: string
  color :: vec3
  weight :: vec3

definition states :: "state list" where
  "states = [
    \<lparr>name = ''Red'',         color = (255, 0, 0),     weight = (1, 0, 0)\<rparr>,
    \<lparr>name = ''Pink'',        color = (255, 0, 128),   weight = (2, 0, 1)\<rparr>,
    \<lparr>name = ''Infrared'',    color = (255, 128, 128), weight = (2, 1, 1)\<rparr>,
    \<lparr>name = ''Orange'',      color = (255, 128, 0),   weight = (2, 1, 0)\<rparr>,
    \<lparr>name = ''Thalo'',       color = (0, 255, 128),   weight = (0, 2, 1)\<rparr>,
    \<lparr>name = ''Camo'',        color = (128, 255, 128), weight = (1, 2, 1)\<rparr>,
    \<lparr>name = ''Lime'',        color = (0, 255, 0),     weight = (0, 1, 0)\<rparr>,
    \<lparr>name = ''Cyan'',        color = (0, 255, 255),   weight = (0, 1, 1)\<rparr>,
    \<lparr>name = ''Violet'',      color = (128, 0, 255),   weight = (1, 0, 2)\<rparr>,
    \<lparr>name = ''Ultraviolet'', color = (255, 128, 255), weight = (2, 1, 2)\<rparr>,
    \<lparr>name = ''Blue'',        color = (0, 0, 255),     weight = (0, 0, 1)\<rparr>,
    \<lparr>name = ''Cerulean'',    color = (0, 128, 255),   weight = (0, 1, 2)\<rparr>,
    \<lparr>name = ''Indigo'',      color = (128, 128, 255), weight = (1, 1, 2)\<rparr>,
    \<lparr>name = ''Magenta'',     color = (255, 0, 255),   weight = (1, 0, 1)\<rparr>,
    \<lparr>name = ''Chartreuse'',  color = (128, 255, 0),   weight = (1, 2, 0)\<rparr>,
    \<lparr>name = ''Aqua'',        color = (128, 255, 255), weight = (1, 2, 2)\<rparr>,
    \<lparr>name = ''Yellow'',      color = (255, 255, 0),   weight = (1, 1, 0)\<rparr>,
    \<lparr>name = ''Mustard'',     color = (255, 255, 128), weight = (2, 2, 1)\<rparr>,
    \<lparr>name = ''Null'',        color = (0, 0, 0),       weight = (0, 0, 0)\<rparr>,
    \<lparr>name = ''Nill'',        color = (255, 255, 255), weight = (2, 2, 2)\<rparr>,
    \<lparr>name = ''N/A'',         color = (128, 128, 128), weight = (1, 1, 1)\<rparr>]"

definition num_states :: nat where
  "num_states = length states"

definition weights :: "vec3 list" where
  "weights = map weight states"

definition colors :: "vec3 list" where
  "colors = map color states"

definition NULL_IDX :: int where "NULL_IDX = 18"
definition NILL_IDX :: int where "NILL_IDX = 19"
definition NA_IDX :: int where "NA_IDX = 20"

text \<open>
  The lookup table is a 3 x 3 x 3 array filled with \<open>-1\<close>; the loop over
  \<open>enumerate(states)\<close> then stores each index at the position of its weight triple.
\<close>

type_synonym table3 = "int list list list"

definition store3 :: "table3 \<Rightarrow> vec3 \<Rightarrow> int \<Rightarrow> table3" where
  "store3 t w v =
     (case w of (a, b, c) \<Rightarrow>
        t[nat a := (t ! nat a)[nat b := (t ! nat a ! nat b)[nat c := v]]])"

definition lookup :: table3 where
  "lookup = fold (\<lambda>(idx, s) t. store3 t (weight s) (int idx)) (enumerate 0 states)
              (replicate 3 (replicate 3 (replicate 3 (- 1))))"

text \<open>
  \<open>lookup[a, b, c]\<close> raises IndexError when a component is outside \<open>[-3, 2]\<close>; a
  negative component inside that range counts from the end of its axis.  \<open>in_table\<close> is
  the condition under which the index is accepted, \<open>lookup_at\<close> the entry it then reads.
\<close>

definition in_table :: "vec3 \<Rightarrow> bool" where
  "in_table w =
     (case w of (a, b, c) \<Rightarrow> - 3 \<le> a \<and> a < 3 \<and> - 3 \<le> b \<and> b < 3 \<and> - 3 \<le> c \<and> c < 3)"

definition table_index :: "int \<Rightarrow> nat" where
  "table_index a = nat (if a < 0 then a + 3 else a)"

definition lookup_at :: "vec3 \<Rightarrow> int" where
  "lookup_at w =
     (case w of (a, b, c) \<Rightarrow> lookup ! table_index a ! table_index b ! table_index c)"


section \<open>Arrays\<close>

text \<open>
  A two-dimensional NumPy array is a list of rows.  Every array NumPy can build is
  rectangular, which \<open>rect\<close> states; \<open>shape\<close> returns \<open>(rows, cols)\<close>.  An array with no
  rows is the empty list, whatever its second dimension was.
\<close>

type_synonym grid = "int list list"

definition shape :: "'a list list \<Rightarrow> nat \<times> nat" where
  "shape g = (length g, case g of [] \<Rightarrow> 0 | r # _ \<Rightarrow> length r)"

definition rect :: "'a list list \<Rightarrow> bool" where
  "rect g = (\<forall>row \<in> set g. length row = snd (shape g))"

definition map2d :: "('a \<Rightarrow> 'b) \<Rightarrow> 'a list list \<Rightarrow> 'b list list" where
  "map2d f g = map (map f) g"

definition zip2d :: "('a \<Rightarrow> 'b \<Rightarrow> 'c) \<Rightarrow> 'a list list \<Rightarrow> 'b list list \<Rightarrow> 'c list list" where
  "zip2d f A B = map2 (map2 f) A B"

definition full :: "nat \<Rightarrow> nat \<Rightarrow> 'a \<Rightarrow> 'a list list" where
  "full rows cols v = replicate rows (replicate cols v)"

definition store2 :: "'a list list \<Rightarrow> nat \<Rightarrow> nat \<Rightarrow> 'a \<Rightarrow> 'a list list" where
  "store2 g y x v = g[y := (g ! y)[x := v]]"

text \<open>
  \<open>np.roll(xs, k)\<close> moves every element \<open>k\<close> places towards the end, cyclically: the
  element at position \<open>i\<close> of the result is the one that was at \<open>(i - k) mod n\<close>.
  \<open>roll0\<close> rolls along axis 0 (the rows), \<open>roll1\<close> along axis 1 (inside every row).
\<close>

definition roll :: "int \<Rightarrow> 'a list \<Rightarrow> 'a list" where
  "roll k xs = map (\<lambda>i. xs ! nat ((int i - k) mod int (length xs))) [0..<length xs]"

definition roll0 :: "int \<Rightarrow> 'a list list \<Rightarrow> 'a list list" where
  "roll0 k g = roll k g"

definition roll1 :: "int \<Rightarrow> 'a list list \<Rightarrow> 'a list list" where
  "roll1 k g = map (roll k) g"

text \<open>
  \<open>np.argwhere\<close> lists the positions of the cells that satisfy a condition, in row-major
  order.
\<close>

definition argwhere :: "('a \<Rightarrow> bool) \<Rightarrow> 'a list list \<Rightarrow> (nat \<times> nat) list" where
  "argwhere p g =
     concat (map (\<lambda>y. map (\<lambda>x. (y, x)) (filter (\<lambda>x. p (g ! y ! x)) [0..<length (g ! y)]))
                 [0..<length g])"

section \<open>Indexing the weight table\<close>

text \<open>
  \<open>weights[grid]\<close> raises IndexError as soon as one entry of the grid is outside
  \<open>[-21, 20]\<close>; a negative entry inside that range counts from the end of the table.
\<close>

datatype error = IndexError

definition in_bounds :: "int \<Rightarrow> bool" where
  "in_bounds i = (- int (length weights) \<le> i \<and> i < int (length weights))"

definition weights_at :: "int \<Rightarrow> vec3" where
  "weights_at i = weights ! nat (if i < 0 then i + int (length weights) else i)"

definition comp0 :: "vec3 \<Rightarrow> int" where "comp0 w = (case w of (a, b, c) \<Rightarrow> a)"
definition comp1 :: "vec3 \<Rightarrow> int" where "comp1 w = (case w of (a, b, c) \<Rightarrow> b)"
definition comp2 :: "vec3 \<Rightarrow> int" where "comp2 w = (case w of (a, b, c) \<Rightarrow> c)"

definition add3 :: "vec3 \<Rightarrow> vec3 \<Rightarrow> vec3" where
  "add3 u w = (comp0 u + comp0 w, comp1 u + comp1 w, comp2 u + comp2 w)"

definition scale3 :: "int \<Rightarrow> vec3 \<Rightarrow> vec3" where
  "scale3 k w = (k * comp0 w, k * comp1 w, k * comp2 w)"

section \<open>Rounding the weighted average\<close>

text \<open>
  \<open>np.rint(weighted_sum / total_filter)\<close> divides in floating point and rounds to the
  nearest integer, ties to the even one.  In \<open>update_grid\<close> the numerator is an integer
  between 0 and 72 and the denominator an integer between 1 and 36, both held exactly;
  the correctly rounded quotient is a tie exactly when the rational quotient is one, and is
  otherwise on the same side of the nearest tie.  So the result is the rational quotient
  rounded half to even, which \<open>rint_div\<close> computes on integers.
\<close>

definition rint_div :: "int \<Rightarrow> int \<Rightarrow> int" where
  "rint_div p q =
     (let d = p div q; r = p mod q
      in if 2 * r < q then d
         else if q < 2 * r then d + 1
         else if even d then d else d + 1)"

definition rint3 :: "vec3 \<Rightarrow> int \<Rightarrow> vec3" where
  "rint3 w q = (rint_div (comp0 w) q, rint_div (comp1 w) q, rint_div (comp2 w) q)"

section \<open>The random source\<close>

text \<open>
  The module-level generator of \<open>random\<close> is the only state \<open>update_grid\<close> shares
  with its caller.  It is passed explicitly, as the sequence of the raw numbers it will
  hand out; \<open>random.choice(seq)\<close> takes the next number, reduces it to an index below
  \<open>len(seq)\<close> and leaves the rest of the sequence to the next call.
\<close>

type_synonym rng = "nat \<Rightarrow> nat"

definition random_choice :: "'a list \<Rightarrow> rng \<Rightarrow> 'a \<times> rng" where
  "random_choice seq r = (seq ! (r 0 mod length seq), \<lambda>i. r (Suc i))"

section \<open>One generation: \<open>update_grid\<close>\<close>

definition offsets :: "(int \<times> int) list" where
  "offsets = [(- 1, - 1), (- 1, 0), (- 1, 1),
              (0, - 1),   (0, 0),   (0, 1),
              (1, - 1),   (1, 0),   (1, 1)]"

definition cell_weights :: "grid \<Rightarrow> vec3 list list" where
  "cell_weights grid = map2d weights_at grid"

text \<open>\<open>np.where(d == -1, a_arr, np.where(d == 0, b_arr, c_arr))\<close> for a scalar \<open>d\<close>.\<close>

definition pick :: "int \<Rightarrow> 'a \<Rightarrow> 'a \<Rightarrow> 'a \<Rightarrow> 'a" where
  "pick d a b c = (if d = - 1 then a else if d = 0 then b else c)"

definition coeffs :: "grid \<Rightarrow> int list list list" where
  "coeffs grid =
     (let a_arr = map2d comp0 (cell_weights grid);
          b_arr = map2d comp1 (cell_weights grid);
          c_arr = map2d comp2 (cell_weights grid)
      in map (\<lambda>(di, dj).
                let hor = pick dj a_arr b_arr c_arr;
                    ver = pick di a_arr b_arr c_arr
                in zip2d (*) hor ver) offsets)"

definition total_filter :: "grid \<Rightarrow> int list list" where
  "total_filter grid =
     (case shape grid of (rows, cols) \<Rightarrow>
        fold (\<lambda>coeff acc. zip2d (+) acc coeff) (coeffs grid) (full rows cols 0))"

definition weighted_sum :: "grid \<Rightarrow> vec3 list list" where
  "weighted_sum grid =
     (case shape grid of (rows, cols) \<Rightarrow>
        fold (\<lambda>(coeff, (di, dj)) acc.
                let rolled = roll1 dj (roll0 di grid);
                    neighbor_weights = map2d weights_at rolled
                in zip2d add3 acc (zip2d scale3 coeff neighbor_weights))
             (zip (coeffs grid) offsets) (full rows cols (0, 0, 0)))"

text \<open>
  \<open>np.where(total_filter != 0, rint(weighted_sum / total_filter), cell_weights)\<close>, cell by
  cell; the third argument is the array used where the filter is zero.
\<close>

definition where_nonzero :: "int list list \<Rightarrow> vec3 list list \<Rightarrow> vec3 list list \<Rightarrow> vec3 list list" where
  "where_nonzero tf ws other =
     zip2d (\<lambda>t (s, w). if t \<noteq> 0 then rint3 s t else w) tf (zip2d Pair ws other)"

definition new_components :: "grid \<Rightarrow> vec3 list list" where
  "new_components grid = where_nonzero (total_filter grid) (weighted_sum grid) (cell_weights grid)"

definition twist :: "vec3 \<Rightarrow> vec3" where
  "twist w = ((comp0 w + 1) mod 3, (comp1 w + 1) mod 3, (comp2 w + 1) mod 3)"

text \<open>
  The deterministic part of the update, from the rounded averages on: the table lookup,
  then the Null mask, then the N/A mask.  The lookup of the whole array of rounded averages
  is checked in \<open>finish\<close>; the twisted triples are remainders modulo 3, so their lookup
  is always accepted.
\<close>

definition masked :: "grid \<Rightarrow> vec3 list list \<Rightarrow> grid" where
  "masked grid comps =
     (let new_state_default = map2d lookup_at comps;
          new_grid = zip2d (\<lambda>g n. if g = NULL_IDX then g else n) grid new_state_default
      in if list_ex (list_ex (\<lambda>g. g = NA_IDX)) grid
         then zip2d (\<lambda>g (n, w). if g = NA_IDX then lookup_at (twist w) else n)
                grid (zip2d Pair new_grid comps)
         else new_grid)"

text \<open>The candidates of one Nill cell, in the order of \<open>offsets\<close>.\<close>

definition choices :: "grid \<Rightarrow> nat \<Rightarrow> nat \<Rightarrow> int list" where
  "choices grid y x =
     (case shape grid of (rows, cols) \<Rightarrow>
        concat (map (\<lambda>(di, dj).
                  let ny = nat ((int y + di) mod int rows);
                      nx = nat ((int x + dj) mod int cols)
                  in if grid ! ny ! nx \<noteq> NULL_IDX then [grid ! ny ! nx] else []) offsets))"

definition nill_step :: "grid \<Rightarrow> nat \<times> nat \<Rightarrow> grid \<times> rng \<Rightarrow> grid \<times> rng" where
  "nill_step grid p st =
     (case p of (y, x) \<Rightarrow> case st of (new_grid, r) \<Rightarrow>
        if choices grid y x \<noteq> []
        then (case random_choice (choices grid y x) r of (v, r') \<Rightarrow> (store2 new_grid y x v, r'))
        else (store2 new_grid y x (grid ! y ! x), r))"

definition nill_indices :: "grid \<Rightarrow> (nat \<times> nat) list" where
  "nill_indices grid = argwhere (\<lambda>g. g = NILL_IDX) grid"

text \<open>
  The update from the table lookup on (the lookup, the masks and the loop over the Nill
  cells), for any array of triples in the place of \<open>new_components\<close>.  The lookup raises
  IndexError when one of the triples is outside the table.
\<close>

definition finish :: "grid \<Rightarrow> vec3 list list \<Rightarrow> rng \<Rightarrow> error + grid \<times> rng" where
  "finish grid comps r =
     (if list_all (list_all in_table) comps
      then Inr (fold (nill_step grid) (nill_indices grid) (masked grid comps, r))
      else Inl IndexError)"

definition update_grid :: "grid \<Rightarrow> rng \<Rightarrow> error + grid \<times> rng" where
  "update_grid grid r =
     (if list_all (list_all in_bounds) grid
      then finish grid (new_components grid) r
      else Inl IndexError)"

text \<open>A grid as the automaton expects it: rectangular, every entry a state index.\<close>

definition valid_index :: "int \<Rightarrow> bool" where
  "valid_index i = (0 \<le> i \<and> i \<le> 20)"

definition valid_grid :: "grid \<Rightarrow> bool" where
  "valid_grid g = (rect g \<and> list_all (list_all valid_index) g)"

section \<open>Notions used in the statements\<close>

text \<open>
  \<open>has_shape rows cols A\<close>: the array \<open>A\<close> has \<open>rows\<close> rows of \<open>cols\<close> cells each.  The
  arrays of one run of \<open>update_grid\<close> all have the shape of the grid.
\<close>

definition has_shape :: "nat \<Rightarrow> nat \<Rightarrow> 'a list list \<Rightarrow> bool" where
  "has_shape rows cols A = (length A = rows \<and> (\<forall>row \<in> set A. length row = cols))"

definition entries_in :: "nat \<Rightarrow> nat \<Rightarrow> (int \<Rightarrow> bool) \<Rightarrow> grid \<Rightarrow> bool" where
  "entries_in rows cols P g = (has_shape rows cols g \<and> (\<forall>y < rows. \<forall>x < cols. P (g ! y ! x)))"

text \<open>
  The vote of one cell, written cell by cell.  \<open>coefficient w (di, dj)\<close> is the product of
  the horizontal selector (by \<open>dj\<close>) and the vertical selector (by \<open>di\<close>) on the weight
  triple \<open>w\<close> of the centre cell.  \<open>neighbor dir grid y x (di, dj)\<close> is the state of the
  cell at \<open>((y + dir * di) mod rows, (x + dir * dj) mod cols)\<close>: with \<open>dir = 1\<close> the cell
  the offset points at, with \<open>dir = -1\<close> the opposite one.  \<open>vote dir grid y x k\<close> is the
  sum over the nine offsets of the coefficient times component \<open>k\<close> of the weight of that
  cell.
\<close>

definition coefficient :: "vec3 \<Rightarrow> int \<times> int \<Rightarrow> int" where
  "coefficient w off =
     (case off of (di, dj) \<Rightarrow> case w of (a, b, c) \<Rightarrow> pick dj a b c * pick di a b c)"

definition neighbor :: "int \<Rightarrow> grid \<Rightarrow> nat \<Rightarrow> nat \<Rightarrow> int \<times> int \<Rightarrow> int" where
  "neighbor dir grid y x off =
     (case shape grid of (rows, cols) \<Rightarrow> case off of (di, dj) \<Rightarrow>
        grid ! nat ((int y + dir * di) mod int rows) ! nat ((int x + dir * dj) mod int cols))"

definition vote :: "int \<Rightarrow> grid \<Rightarrow> nat \<Rightarrow> nat \<Rightarrow> (vec3 \<Rightarrow> int) \<Rightarrow> int" where
  "vote dir grid y x k =
     (\<Sum>off\<leftarrow>offsets. coefficient (weights_at (grid ! y ! x)) off *
                       k (weights_at (neighbor dir grid y x off)))"

text \<open>The array added to the accumulator by one pass of the loop over the offsets.\<close>

definition contribution :: "grid \<Rightarrow> int list list \<times> int \<times> int \<Rightarrow> vec3 list list" where
  "contribution grid p =
     (case p of (coeff, (di, dj)) \<Rightarrow>
        zip2d scale3 coeff (map2d weights_at (roll1 dj (roll0 di grid))))"

text \<open>
  The ordinary states are the 18 states other than Null, Nill and N/A.  A triple is inside
  the lookup table when its three components are 0, 1 or 2.
\<close>

definition ordinary :: "int \<Rightarrow> bool" where
  "ordinary i = (valid_index i \<and> i \<noteq> NULL_IDX \<and> i \<noteq> NILL_IDX \<and> i \<noteq> NA_IDX)"

definition triple_ok :: "vec3 \<Rightarrow> bool" where
  "triple_ok w = (comp0 w \<in> {0, 1, 2} \<and> comp1 w \<in> {0, 1, 2} \<and> comp2 w \<in> {0, 1, 2})"

text \<open>
  The grid a run returned (the empty grid stands for a run that raised), two constant
  random sources, the concrete grids the scenarios are run on, and the eight border cells
  of a 3 x 3 grid.
\<close>

definition grid_of :: "error + grid \<times> rng \<Rightarrow> grid" where
  "grid_of res = (case res of Inr (g, r) \<Rightarrow> g | Inl e \<Rightarrow> [])"

definition zero_rng :: rng where
  "zero_rng = (\<lambda>i. 0)"

definition one_rng :: rng where
  "one_rng = (\<lambda>i. 1)"

definition null_demo :: grid where
  "null_demo = [[0, 19, 20], [5, 18, 7], [19, 2, 18]]"

definition na_demo :: grid where
  "na_demo = [[1, 1, 1], [1, 20, 1], [1, 1, 1]]"

definition cell_at :: "grid \<Rightarrow> nat \<times> nat \<Rightarrow> int" where
  "cell_at g p = g ! fst p ! snd p"

definition border_cells :: "(nat \<times> nat) list" where
  "border_cells = [(0, 0), (0, 1), (0, 2), (1, 0), (1, 2), (2, 0), (2, 1), (2, 2)]"

definition red_blue :: grid where
  "red_blue = [[0, 0, 0], [0, 10, 0], [0, 0, 0]]"

definition unmapped_demo :: grid where
  "unmapped_demo = [[0, 1, 1], [0, 0, 1], [1, 0, 3]]"

definition nill_demo :: grid where
  "nill_demo = [[0, 18, 18], [18, 19, 18], [18, 18, 18]]"

section \<open>Shapes and cells of arrays\<close>

lemma has_shape_length: "has_shape rows cols A \<Longrightarrow> length A = rows"
  by (simp add: has_shape_def)

lemma has_shape_row: "has_shape rows cols A \<Longrightarrow> y < rows \<Longrightarrow> length (A ! y) = cols"
  by (simp add: has_shape_def)

lemma has_shapeI:
  "length A = rows \<Longrightarrow> (\<And>y. y < rows \<Longrightarrow> length (A ! y) = cols) \<Longrightarrow> has_shape rows cols A"
  unfolding has_shape_def by (metis in_set_conv_nth)

lemma rect_has_shape: "rect g \<Longrightarrow> has_shape (fst (shape g)) (snd (shape g)) g"
  by (simp add: rect_def has_shape_def shape_def)

lemma has_shape_shape: "has_shape rows cols g \<Longrightarrow> 0 < rows \<Longrightarrow> shape g = (rows, cols)"
  by (cases g) (auto simp: has_shape_def shape_def)

lemma has_shape_map2d: "has_shape rows cols A \<Longrightarrow> has_shape rows cols (map2d f A)"
  by (auto simp: has_shape_def map2d_def)

lemma nth_map2d:
  "has_shape rows cols A \<Longrightarrow> y < rows \<Longrightarrow> x < cols \<Longrightarrow> map2d f A ! y ! x = f (A ! y ! x)"
  by (simp add: has_shape_def map2d_def)

lemma has_shape_zip2d:
  assumes "has_shape rows cols A" "has_shape rows cols B"
  shows "has_shape rows cols (zip2d f A B)"
proof (rule has_shapeI)
  show "length (zip2d f A B) = rows"
    using assms by (simp add: zip2d_def has_shape_def)
next
  fix y assume "y < rows"
  then show "length (zip2d f A B ! y) = cols"
    using assms by (simp add: zip2d_def has_shape_def)
qed

lemma nth_zip2d:
  "has_shape rows cols A \<Longrightarrow> has_shape rows cols B \<Longrightarrow> y < rows \<Longrightarrow> x < cols \<Longrightarrow>
   zip2d f A B ! y ! x = f (A ! y ! x) (B ! y ! x)"
  by (simp add: zip2d_def has_shape_def)

lemma has_shape_full: "has_shape rows cols (full rows cols v)"
  by (simp add: has_shape_def full_def)

lemma nth_full: "y < rows \<Longrightarrow> x < cols \<Longrightarrow> full rows cols v ! y ! x = v"
  by (simp add: full_def)

lemma wrap_less: "0 < n \<Longrightarrow> nat (k mod int n) < n"
  by (simp add: nat_less_iff)

lemma length_roll: "length (roll k xs) = length xs"
  by (simp add: roll_def)

lemma nth_roll: "i < length xs \<Longrightarrow> roll k xs ! i = xs ! nat ((int i - k) mod int (length xs))"
  by (simp add: roll_def)

lemma roll_example: "roll 2 [0, 1, 2, 3, 4 :: int] = [3, 4, 0, 1, 2]"
  by code_simp

lemma has_shape_rolled:
  assumes "has_shape rows cols A"
  shows "has_shape rows cols (roll1 dj (roll0 di A))"
proof (rule has_shapeI)
  show "length (roll1 dj (roll0 di A)) = rows"
    using assms by (simp add: roll1_def roll0_def length_roll has_shape_def)
next
  fix y assume y: "y < rows"
  then have "nat ((int y - di) mod int rows) < rows" by (intro wrap_less) simp
  then show "length (roll1 dj (roll0 di A) ! y) = cols"
    using assms y by (simp add: roll1_def roll0_def length_roll nth_roll has_shape_def)
qed

lemma nth_rolled:
  assumes "has_shape rows cols A" "y < rows" "x < cols"
  shows "roll1 dj (roll0 di A) ! y ! x =
         A ! nat ((int y - di) mod int rows) ! nat ((int x - dj) mod int cols)"
proof -
  have "nat ((int y - di) mod int rows) < rows" using assms(2) by (intro wrap_less) simp
  then show ?thesis
    using assms by (simp add: roll1_def roll0_def length_roll nth_roll has_shape_def)
qed

lemma store2_other:
  "(y', x') \<noteq> (y, x) \<Longrightarrow> store2 g y' x' v ! y ! x = g ! y ! x"
  by (cases "y' = y"; cases "y < length g") (auto simp: store2_def list_update_beyond)

lemma store2_same:
  "y < length g \<Longrightarrow> x < length (g ! y) \<Longrightarrow> store2 g y x v ! y ! x = v"
  by (simp add: store2_def)

lemma has_shape_store2:
  assumes "has_shape rows cols g"
  shows "has_shape rows cols (store2 g y x v)"
proof (rule has_shapeI)
  show "length (store2 g y x v) = rows"
    using assms by (simp add: store2_def has_shape_def)
next
  fix i assume i: "i < rows"
  then have "length (g ! i) = cols" by (rule has_shape_row [OF assms])
  then show "length (store2 g y x v ! i) = cols"
    using i assms by (cases "i = y") (simp_all add: store2_def has_shape_def)
qed

lemma set_argwhere:
  "set (argwhere p g) = {(y, x). y < length g \<and> x < length (g ! y) \<and> p (g ! y ! x)}"
  unfolding argwhere_def by auto

lemma has_shape_eqI:
  assumes "has_shape rows cols A" "has_shape rows cols B"
    and "\<And>y x. y < rows \<Longrightarrow> x < cols \<Longrightarrow> A ! y ! x = B ! y ! x"
  shows "A = B"
proof (rule nth_equalityI)
  show "length A = length B" using assms(1,2) by (simp add: has_shape_def)
next
  fix y assume "y < length A"
  then have y: "y < rows" using assms(1) by (simp add: has_shape_def)
  show "A ! y = B ! y"
  proof (rule nth_equalityI)
    show "length (A ! y) = length (B ! y)"
      using assms(1,2) y by (simp add: has_shape_row)
  next
    fix x assume "x < length (A ! y)"
    then have "x < cols" using assms(1) y by (simp add: has_shape_row)
    then show "A ! y ! x = B ! y ! x" using y by (rule assms(3) [rotated])
  qed
qed

lemma list_all_cells:
  assumes "has_shape rows cols A" "\<And>y x. y < rows \<Longrightarrow> x < cols \<Longrightarrow> P (A ! y ! x)"
  shows "list_all (list_all P) A"
  unfolding list_all_length
  using assms by (simp add: has_shape_def)

section \<open>The weighted vote, cell by cell\<close>

lemma has_shape_cell_weights:
  "has_shape rows cols g \<Longrightarrow> has_shape rows cols (cell_weights g)"
  by (simp add: cell_weights_def has_shape_map2d)

lemma nth_cell_weights:
  "has_shape rows cols g \<Longrightarrow> y < rows \<Longrightarrow> x < cols \<Longrightarrow>
   cell_weights g ! y ! x = weights_at (g ! y ! x)"
  by (simp add: cell_weights_def nth_map2d)

lemma has_shape_pick:
  "has_shape rows cols A \<Longrightarrow> has_shape rows cols B \<Longrightarrow> has_shape rows cols C \<Longrightarrow>
   has_shape rows cols (pick d A B C)"
  by (simp add: pick_def)

lemma nth_pick: "pick d A B C ! y ! x = pick d (A ! y ! x) (B ! y ! x) (C ! y ! x)"
  by (simp add: pick_def)

lemma has_shape_coeffs:
  assumes "has_shape rows cols g" "cf \<in> set (coeffs g)"
  shows "has_shape rows cols cf"
proof -
  note cw = has_shape_cell_weights [OF assms(1)]
  show ?thesis
    using assms(2) unfolding coeffs_def Let_def
    by (auto intro!: has_shape_zip2d has_shape_pick has_shape_map2d cw)
qed

lemma length_coeffs: "length (coeffs g) = length offsets"
  by (simp add: coeffs_def Let_def)

lemma nth_coeffs:
  assumes "has_shape rows cols g" "y < rows" "x < cols"
  shows "map (\<lambda>cf. cf ! y ! x) (coeffs g) = map (coefficient (weights_at (g ! y ! x))) offsets"
proof -
  note cw = has_shape_cell_weights [OF assms(1)]
  have "zip2d (*) (pick dj (map2d comp0 (cell_weights g)) (map2d comp1 (cell_weights g)) (map2d comp2 (cell_weights g)))
          (pick di (map2d comp0 (cell_weights g)) (map2d comp1 (cell_weights g)) (map2d comp2 (cell_weights g))) ! y ! x
        = coefficient (weights_at (g ! y ! x)) (di, dj)" for di dj
  proof -
    have "zip2d (*) (pick dj (map2d comp0 (cell_weights g)) (map2d comp1 (cell_weights g)) (map2d comp2 (cell_weights g)))
          (pick di (map2d comp0 (cell_weights g)) (map2d comp1 (cell_weights g)) (map2d comp2 (cell_weights g))) ! y ! x
        = pick dj (map2d comp0 (cell_weights g)) (map2d comp1 (cell_weights g)) (map2d comp2 (cell_weights g)) ! y ! x
          * pick di (map2d comp0 (cell_weights g)) (map2d comp1 (cell_weights g)) (map2d comp2 (cell_weights g)) ! y ! x"
      by (rule nth_zip2d [OF _ _ assms(2,3)]) (intro has_shape_pick has_shape_map2d cw)+
    also have "\<dots> = coefficient (weights_at (g ! y ! x)) (di, dj)"
      using assms
      by (simp add: nth_pick nth_map2d [OF cw] nth_cell_weights coefficient_def
            comp0_def comp1_def comp2_def split: prod.splits)
    finally show ?thesis .
  qed
  then show ?thesis
    unfolding coeffs_def Let_def by (simp add: split_def)
qed

lemma fold_zip2d:
  assumes "\<forall>A \<in> set As. has_shape rows cols A" "has_shape rows cols Z"
  shows "has_shape rows cols (fold (\<lambda>A acc. zip2d f acc A) As Z)"
    and "y < rows \<Longrightarrow> x < cols \<Longrightarrow>
         fold (\<lambda>A acc. zip2d f acc A) As Z ! y ! x
         = fold (\<lambda>a acc. f acc a) (map (\<lambda>A. A ! y ! x) As) (Z ! y ! x)"
  using assms
proof (induction As arbitrary: Z)
  case Nil
  { case 1 then show ?case by simp }
  { case 2 then show ?case by simp }
next
  case (Cons A As)
  { case 1
    then show ?case by (simp add: Cons.IH(1) has_shape_zip2d) }
  { case 2
    then show ?case by (simp add: Cons.IH(2) has_shape_zip2d nth_zip2d) }
qed

lemma fold_plus_sum_list: "fold (\<lambda>a acc. acc + a) xs (z::int) = z + sum_list xs"
  by (induction xs arbitrary: z) simp_all

lemma has_shape_total_filter:
  assumes "has_shape rows cols g" "0 < rows"
  shows "has_shape rows cols (total_filter g)"
  unfolding total_filter_def has_shape_shape [OF assms] prod.case
  by (rule fold_zip2d(1)) (auto simp: has_shape_full intro: has_shape_coeffs [OF assms(1)])

lemma nth_total_filter:
  assumes "has_shape rows cols g" "y < rows" "x < cols"
  shows "total_filter g ! y ! x = sum_list (map (coefficient (weights_at (g ! y ! x))) offsets)"
proof -
  have sh: "shape g = (rows, cols)" using assms by (intro has_shape_shape) auto
  have "total_filter g ! y ! x
        = fold (\<lambda>a acc. acc + a) (map (\<lambda>A. A ! y ! x) (coeffs g)) (full rows cols 0 ! y ! x)"
    unfolding total_filter_def sh prod.case
    by (rule fold_zip2d(2) [OF _ _ assms(2,3)])
       (auto simp: has_shape_full intro: has_shape_coeffs [OF assms(1)])
  then show ?thesis
    using assms by (simp add: nth_coeffs nth_full fold_plus_sum_list)
qed

lemma total_filter_square:
  "sum_list (map (coefficient (a, b, c)) offsets) = (a + b + c)\<^sup>2"
  by (simp add: offsets_def coefficient_def pick_def power2_eq_square algebra_simps)

lemma comp_add3 [simp]:
  "comp0 (add3 u w) = comp0 u + comp0 w"
  "comp1 (add3 u w) = comp1 u + comp1 w"
  "comp2 (add3 u w) = comp2 u + comp2 w"
  by (simp_all add: add3_def comp0_def comp1_def comp2_def)

lemma comp_scale3 [simp]:
  "comp0 (scale3 k w) = k * comp0 w"
  "comp1 (scale3 k w) = k * comp1 w"
  "comp2 (scale3 k w) = k * comp2 w"
  by (simp_all add: scale3_def comp0_def comp1_def comp2_def)

lemma comp_triple [simp]: "comp0 (a, b, c) = a" "comp1 (a, b, c) = b" "comp2 (a, b, c) = c"
  by (simp_all add: comp0_def comp1_def comp2_def)

lemma vec3_eqI: "comp0 u = comp0 w \<Longrightarrow> comp1 u = comp1 w \<Longrightarrow> comp2 u = comp2 w \<Longrightarrow> u = w"
  by (cases u; cases w) simp

lemma total_filter_cell:
  assumes "has_shape rows cols g" "y < rows" "x < cols"
  shows "total_filter g ! y ! x =
         (comp0 (weights_at (g ! y ! x)) + comp1 (weights_at (g ! y ! x)) +
          comp2 (weights_at (g ! y ! x)))\<^sup>2"
  unfolding nth_total_filter [OF assms]
  by (cases "weights_at (g ! y ! x)") (simp add: total_filter_square)

lemma fold_add3:
  "comp0 (fold (\<lambda>v acc. add3 acc v) vs z) = comp0 z + sum_list (map comp0 vs)"
  "comp1 (fold (\<lambda>v acc. add3 acc v) vs z) = comp1 z + sum_list (map comp1 vs)"
  "comp2 (fold (\<lambda>v acc. add3 acc v) vs z) = comp2 z + sum_list (map comp2 vs)"
  by (induction vs arbitrary: z) simp_all

lemma weighted_sum_contribution:
  "weighted_sum grid =
     (case shape grid of (rows, cols) \<Rightarrow>
        fold (\<lambda>A acc. zip2d add3 acc A) (map (contribution grid) (zip (coeffs grid) offsets))
          (full rows cols (0, 0, 0)))"
  unfolding weighted_sum_def contribution_def Let_def fold_map
  by (simp add: comp_def split_def)

lemma has_shape_contribution:
  assumes "has_shape rows cols g" "p \<in> set (zip (coeffs g) offsets)"
  shows "has_shape rows cols (contribution g p)"
proof -
  obtain cf di dj where p: "p = (cf, (di, dj))" by (cases p) auto
  then have "cf \<in> set (coeffs g)" using assms(2) by (auto dest: set_zip_leftD)
  then have "has_shape rows cols cf" by (rule has_shape_coeffs [OF assms(1)])
  then show ?thesis
    unfolding p contribution_def prod.case
    by (intro has_shape_zip2d has_shape_map2d has_shape_rolled assms(1))
qed

lemma nth_contribution:
  assumes "has_shape rows cols g" "y < rows" "x < cols" "cf \<in> set (coeffs g)"
  shows "contribution g (cf, (di, dj)) ! y ! x =
         scale3 (cf ! y ! x)
           (weights_at (g ! nat ((int y - di) mod int rows) ! nat ((int x - dj) mod int cols)))"
proof -
  have cf: "has_shape rows cols cf" by (rule has_shape_coeffs [OF assms(1,4)])
  have r: "has_shape rows cols (roll1 dj (roll0 di g))" by (rule has_shape_rolled [OF assms(1)])
  show ?thesis
    unfolding contribution_def prod.case
    by (simp add: nth_zip2d [OF cf has_shape_map2d [OF r] assms(2,3)]
          nth_map2d [OF r assms(2,3)] nth_rolled [OF assms(1-3)])
qed

lemma neighbor_code:
  assumes "has_shape rows cols g" "0 < rows"
  shows "neighbor (- 1) g y x (di, dj) =
         g ! nat ((int y - di) mod int rows) ! nat ((int x - dj) mod int cols)"
  by (simp add: neighbor_def has_shape_shape [OF assms])

lemma neighbor_mirror: "neighbor (- 1) g y x (di, dj) = neighbor 1 g y x (- di, - dj)"
  by (simp add: neighbor_def)

lemma neighbor_self:
  assumes "shape g = (rows, cols)" "y < rows" "x < cols"
  shows "neighbor dir g y x (0, 0) = g ! y ! x"
  using assms by (simp add: neighbor_def)

lemma has_shape_weighted_sum:
  assumes "has_shape rows cols g" "0 < rows"
  shows "has_shape rows cols (weighted_sum g)"
  unfolding weighted_sum_contribution has_shape_shape [OF assms] prod.case
  by (rule fold_zip2d(1)) (auto simp: has_shape_full intro: has_shape_contribution [OF assms(1)])

lemma nth_weighted_sum_fold:
  assumes "has_shape rows cols g" "y < rows" "x < cols"
  shows "weighted_sum g ! y ! x =
         fold (\<lambda>v acc. add3 acc v)
           (map (\<lambda>off. scale3 (coefficient (weights_at (g ! y ! x)) off)
                          (weights_at (neighbor (- 1) g y x off))) offsets) (0, 0, 0)"
proof -
  have rows: "0 < rows" using assms(2) by simp
  have sh: "shape g = (rows, cols)" by (rule has_shape_shape [OF assms(1) rows])
  have len: "length (coeffs g) = length offsets" by (rule length_coeffs)
  have "map (\<lambda>A. A ! y ! x) (map (contribution g) (zip (coeffs g) offsets))
        = map (\<lambda>(c, off). scale3 c (weights_at (neighbor (- 1) g y x off)))
            (zip (map (\<lambda>cf. cf ! y ! x) (coeffs g)) offsets)"
  proof (rule nth_equalityI)
    show "length (map (\<lambda>A. A ! y ! x) (map (contribution g) (zip (coeffs g) offsets)))
          = length (map (\<lambda>(c, off). scale3 c (weights_at (neighbor (- 1) g y x off)))
              (zip (map (\<lambda>cf. cf ! y ! x) (coeffs g)) offsets))"
      by simp
  next
    fix i assume "i < length (map (\<lambda>A. A ! y ! x) (map (contribution g) (zip (coeffs g) offsets)))"
    then have i: "i < length (coeffs g)" "i < length offsets" by simp_all
    then have mem: "coeffs g ! i \<in> set (coeffs g)" by simp
    obtain di dj where off: "offsets ! i = (di, dj)" by (cases "offsets ! i") auto
    show "map (\<lambda>A. A ! y ! x) (map (contribution g) (zip (coeffs g) offsets)) ! i
          = map (\<lambda>(c, off). scale3 c (weights_at (neighbor (- 1) g y x off)))
              (zip (map (\<lambda>cf. cf ! y ! x) (coeffs g)) offsets) ! i"
      using i by (simp add: off nth_contribution [OF assms mem] neighbor_code [OF assms(1) rows])
  qed
  also have "\<dots> = map (\<lambda>off. scale3 (coefficient (weights_at (g ! y ! x)) off)
                          (weights_at (neighbor (- 1) g y x off))) offsets"
    unfolding nth_coeffs [OF assms] by (simp add: zip_map1 zip_same_conv_map split_def comp_def)
  finally have m: "map (\<lambda>A. A ! y ! x) (map (contribution g) (zip (coeffs g) offsets))
        = map (\<lambda>off. scale3 (coefficient (weights_at (g ! y ! x)) off)
                          (weights_at (neighbor (- 1) g y x off))) offsets" .
  have "weighted_sum g ! y ! x
        = fold (\<lambda>v acc. add3 acc v)
            (map (\<lambda>A. A ! y ! x) (map (contribution g) (zip (coeffs g) offsets)))
            (full rows cols (0, 0, 0) ! y ! x)"
    unfolding weighted_sum_contribution sh prod.case
    by (rule fold_zip2d(2) [OF _ _ assms(2,3)])
       (auto simp: has_shape_full intro: has_shape_contribution [OF assms(1)])
  then show ?thesis
    unfolding m using assms(2,3) by (simp add: nth_full)
qed

lemma nth_weighted_sum:
  assumes "has_shape rows cols g" "y < rows" "x < cols"
  shows "comp0 (weighted_sum g ! y ! x) = vote (- 1) g y x comp0"
    and "comp1 (weighted_sum g ! y ! x) = vote (- 1) g y x comp1"
    and "comp2 (weighted_sum g ! y ! x) = vote (- 1) g y x comp2"
  unfolding nth_weighted_sum_fold [OF assms] fold_add3 vote_def
  by (simp_all add: comp_def)

lemma has_shape_where_nonzero:
  "has_shape rows cols tf \<Longrightarrow> has_shape rows cols ws \<Longrightarrow> has_shape rows cols other \<Longrightarrow>
   has_shape rows cols (where_nonzero tf ws other)"
  by (simp add: where_nonzero_def has_shape_zip2d)

lemma nth_where_nonzero:
  assumes "has_shape rows cols tf" "has_shape rows cols ws" "has_shape rows cols other"
    and "y < rows" "x < cols"
  shows "where_nonzero tf ws other ! y ! x =
         (if tf ! y ! x \<noteq> 0 then rint3 (ws ! y ! x) (tf ! y ! x) else other ! y ! x)"
  using assms
  by (simp add: where_nonzero_def nth_zip2d [OF _ has_shape_zip2d] nth_zip2d)

lemma has_shape_new_components:
  assumes "has_shape rows cols g" "0 < rows"
  shows "has_shape rows cols (new_components g)"
  unfolding new_components_def
  by (intro has_shape_where_nonzero has_shape_total_filter has_shape_weighted_sum
        has_shape_cell_weights assms)

lemma nth_new_components:
  assumes "has_shape rows cols g" "y < rows" "x < cols"
  shows "new_components g ! y ! x =
         (if total_filter g ! y ! x \<noteq> 0
          then rint3 (weighted_sum g ! y ! x) (total_filter g ! y ! x)
          else weights_at (g ! y ! x))"
proof -
  have rows: "0 < rows" using assms(2) by simp
  show ?thesis
    unfolding new_components_def
    by (simp add: nth_where_nonzero [OF has_shape_total_filter [OF assms(1) rows]
          has_shape_weighted_sum [OF assms(1) rows] has_shape_cell_weights [OF assms(1)] assms(2,3)]
          nth_cell_weights [OF assms])
qed

lemma new_components_empty: "new_components [] = []"
  by (simp add: new_components_def where_nonzero_def zip2d_def cell_weights_def map2d_def)

lemma no_NA_cell:
  "\<not> list_ex (list_ex (\<lambda>g. g = NA_IDX)) grid \<Longrightarrow> y < length grid \<Longrightarrow> x < length (grid ! y) \<Longrightarrow>
   grid ! y ! x \<noteq> NA_IDX"
proof
  assume a: "\<not> list_ex (list_ex (\<lambda>g. g = NA_IDX)) grid" "y < length grid" "x < length (grid ! y)"
    and e: "grid ! y ! x = NA_IDX"
  have "grid ! y \<in> set grid" using a(2) by simp
  moreover have "grid ! y ! x \<in> set (grid ! y)" using a(3) by simp
  ultimately have "list_ex (list_ex (\<lambda>g. g = NA_IDX)) grid"
    unfolding list_ex_iff using e by blast
  then show False using a(1) by simp
qed

lemma has_shape_masked:
  assumes "has_shape rows cols g" "has_shape rows cols comps"
  shows "has_shape rows cols (masked g comps)"
  unfolding masked_def Let_def
  by (auto intro!: has_shape_zip2d has_shape_map2d assms)

lemma nth_masked:
  assumes "has_shape rows cols g" "has_shape rows cols comps" "y < rows" "x < cols"
  shows "masked g comps ! y ! x =
         (if g ! y ! x = NULL_IDX then NULL_IDX
          else if g ! y ! x = NA_IDX then lookup_at (twist (comps ! y ! x))
          else lookup_at (comps ! y ! x))"
proof -
  let ?d = "map2d lookup_at comps"
  let ?n = "zip2d (\<lambda>g n. if g = NULL_IDX then g else n) g ?d"
  have d: "has_shape rows cols ?d" by (intro has_shape_map2d assms)
  have n: "has_shape rows cols ?n" by (intro has_shape_zip2d d assms)
  have nn: "?n ! y ! x = (if g ! y ! x = NULL_IDX then NULL_IDX else lookup_at (comps ! y ! x))"
    by (simp add: nth_zip2d [OF assms(1) d assms(3,4)] nth_map2d [OF assms(2-4)])
  have ne: "NULL_IDX \<noteq> NA_IDX" by (simp add: NULL_IDX_def NA_IDX_def)
  show ?thesis
  proof (cases "list_ex (list_ex (\<lambda>g. g = NA_IDX)) g")
    case True
    then have "masked g comps = zip2d (\<lambda>g (n, w). if g = NA_IDX then lookup_at (twist w) else n) g (zip2d Pair ?n comps)"
      by (simp add: masked_def Let_def)
    then show ?thesis
      using ne
      by (simp add: nth_zip2d [OF assms(1) has_shape_zip2d [OF n assms(2)] assms(3,4)]
            nth_zip2d [OF n assms(2-4)] nn)
  next
    case False
    then have m: "masked g comps = ?n" by (simp add: masked_def Let_def)
    have "g ! y ! x \<noteq> NA_IDX"
      using False assms by (intro no_NA_cell) (simp_all add: has_shape_def)
    then show ?thesis unfolding m nn by simp
  qed
qed

section \<open>The loop over the Nill cells\<close>

lemma nill_step_other:
  "(y, x) \<noteq> p \<Longrightarrow> fst (nill_step g p (ng, r)) ! y ! x = ng ! y ! x"
  by (cases p) (auto simp: nill_step_def store2_other split: prod.splits)

lemma fold_nill_step_other:
  "(y, x) \<notin> set ps \<Longrightarrow> fst (fold (nill_step g) ps (ng, r)) ! y ! x = ng ! y ! x"
proof (induction ps arbitrary: ng r)
  case Nil
  then show ?case by simp
next
  case (Cons p ps)
  obtain ng' r' where st: "nill_step g p (ng, r) = (ng', r')" by (cases "nill_step g p (ng, r)") auto
  have "ng' ! y ! x = ng ! y ! x"
    using nill_step_other [of y x p g ng r] Cons.prems st by auto
  then show ?case using Cons st by simp
qed

lemma not_Nill_not_listed:
  "g ! y ! x \<noteq> NILL_IDX \<Longrightarrow> (y, x) \<notin> set (nill_indices g)"
  by (simp add: nill_indices_def set_argwhere)

lemma nill_indices_inside:
  assumes "has_shape rows cols g" "p \<in> set (nill_indices g)"
  shows "fst p < rows \<and> snd p < cols"
  using assms by (cases p) (auto simp: nill_indices_def set_argwhere has_shape_def)

text \<open>The output grid depends on the random source only through the draws it hands out.\<close>

lemma nill_step_draws:
  assumes "r 0 = r' 0"
  shows "fst (nill_step g p (ng, r)) = fst (nill_step g p (ng, r'))"
  using assms by (cases p) (simp add: nill_step_def random_choice_def)

lemma fold_nill_step_draws:
  "\<forall>i < length ps. r i = r' i \<Longrightarrow>
   fst (fold (nill_step g) ps (ng, r)) = fst (fold (nill_step g) ps (ng, r'))"
proof (induction ps arbitrary: ng r r')
  case Nil
  then show ?case by simp
next
  case (Cons p ps)
  obtain y x where p: "p = (y, x)" by (cases p) auto
  show ?case
  proof (cases "choices g y x = []")
    case True
    then have "nill_step g p (ng, r) = (store2 ng y x (g ! y ! x), r)"
      and "nill_step g p (ng, r') = (store2 ng y x (g ! y ! x), r')"
      by (simp_all add: nill_step_def p)
    moreover have "\<forall>i < length ps. r i = r' i" using Cons.prems by simp
    ultimately show ?thesis using Cons.IH by simp
  next
    case False
    have 0: "r 0 = r' 0" using Cons.prems by simp
    let ?v = "choices g y x ! (r 0 mod length (choices g y x))"
    have "nill_step g p (ng, r) = (store2 ng y x ?v, \<lambda>i. r (Suc i))"
      and "nill_step g p (ng, r') = (store2 ng y x ?v, \<lambda>i. r' (Suc i))"
      using False 0 by (simp_all add: nill_step_def p random_choice_def)
    moreover have "\<forall>i < length ps. r (Suc i) = r' (Suc i)" using Cons.prems by auto
    ultimately show ?thesis using Cons.IH [of "\<lambda>i. r (Suc i)" "\<lambda>i. r' (Suc i)"] by simp
  qed
qed

lemma has_shape_nill_step:
  "has_shape rows cols ng \<Longrightarrow> has_shape rows cols (fst (nill_step g p (ng, r)))"
  by (cases p) (simp add: nill_step_def random_choice_def has_shape_store2)

lemma nill_step_chosen:
  assumes "has_shape rows cols ng" "y < rows" "x < cols" "choices g y x \<noteq> []"
  shows "fst (nill_step g (y, x) (ng, r)) ! y ! x \<in> set (choices g y x)"
  using assms by (simp add: nill_step_def random_choice_def store2_same has_shape_def)

lemma fold_nill_step_chosen:
  assumes "y < rows" "x < cols" "choices g y x \<noteq> []"
  shows "has_shape rows cols ng \<Longrightarrow> (y, x) \<in> set ps \<or> ng ! y ! x \<in> set (choices g y x) \<Longrightarrow>
         fst (fold (nill_step g) ps (ng, r)) ! y ! x \<in> set (choices g y x)"
proof (induction ps arbitrary: ng r)
  case Nil
  then show ?case by simp
next
  case (Cons p ps)
  obtain ng' r' where st: "nill_step g p (ng, r) = (ng', r')"
    by (cases "nill_step g p (ng, r)") auto
  have sh: "has_shape rows cols ng'"
    using has_shape_nill_step [OF Cons.prems(1), of g p r] st by simp
  have "(y, x) \<in> set ps \<or> ng' ! y ! x \<in> set (choices g y x)"
  proof (cases "p = (y, x)")
    case True
    then show ?thesis
      using nill_step_chosen [OF Cons.prems(1) assms, of r] st by simp
  next
    case False
    then have "ng' ! y ! x = ng ! y ! x"
      using nill_step_other [of y x p g ng r] st by auto
    then show ?thesis using Cons.prems(2) False by auto
  qed
  then show ?case using Cons.IH [OF sh, of r'] st by simp
qed

lemma entries_in_store2:
  assumes "entries_in rows cols P g" "P v"
  shows "entries_in rows cols P (store2 g y x v)"
proof -
  have h: "has_shape rows cols g" using assms(1) by (simp add: entries_in_def)
  have "P (store2 g y x v ! i ! j)" if ij: "i < rows" "j < cols" for i j
  proof (cases "(y, x) = (i, j)")
    case True
    then show ?thesis
      using ij h assms(2) by (simp add: store2_same has_shape_def)
  next
    case False
    then show ?thesis
      using ij assms(1) by (simp add: store2_other entries_in_def)
  qed
  then show ?thesis
    using has_shape_store2 [OF h] by (simp add: entries_in_def)
qed

lemma choices_from_grid:
  assumes "has_shape rows cols g" "y < rows" "x < cols" "v \<in> set (choices g y x)"
  shows "\<exists>i < rows. \<exists>j < cols. v = g ! i ! j"
proof -
  have rows: "0 < rows" and cols: "0 < cols" using assms(2,3) by simp_all
  obtain di dj where
    v: "v = g ! nat ((int y + di) mod int rows) ! nat ((int x + dj) mod int cols)"
    using assms(4) unfolding choices_def has_shape_shape [OF assms(1) rows] prod.case Let_def
    by (auto split: if_splits)
  show ?thesis
    using v wrap_less [OF rows, of "int y + di"] wrap_less [OF cols, of "int x + dj"] by blast
qed

lemma nill_step_entries:
  assumes "entries_in rows cols P g" "entries_in rows cols P ng" "y < rows" "x < cols"
  shows "entries_in rows cols P (fst (nill_step g (y, x) (ng, r)))"
proof (cases "choices g y x = []")
  case True
  have "P (g ! y ! x)" using assms(1,3,4) by (simp add: entries_in_def)
  then show ?thesis
    using True by (simp add: nill_step_def entries_in_store2 [OF assms(2)])
next
  case False
  let ?v = "choices g y x ! (r 0 mod length (choices g y x))"
  have "?v \<in> set (choices g y x)" using False by simp
  then obtain i j where "i < rows" "j < cols" "?v = g ! i ! j"
    using choices_from_grid [OF _ assms(3,4)] assms(1) unfolding entries_in_def by blast
  then have "P ?v" using assms(1) by (simp add: entries_in_def)
  then show ?thesis
    using False by (simp add: nill_step_def random_choice_def entries_in_store2 [OF assms(2)])
qed

lemma fold_nill_step_entries:
  assumes "entries_in rows cols P g"
    and "\<forall>p \<in> set ps. fst p < rows \<and> snd p < cols"
    and "entries_in rows cols P ng"
  shows "entries_in rows cols P (fst (fold (nill_step g) ps (ng, r)))"
  using assms(2,3)
proof (induction ps arbitrary: ng r)
  case Nil
  then show ?case by simp
next
  case (Cons p ps)
  obtain y x where p: "p = (y, x)" by (cases p) auto
  obtain ng' r' where st: "nill_step g (y, x) (ng, r) = (ng', r')"
    by (cases "nill_step g (y, x) (ng, r)") auto
  have "entries_in rows cols P ng'"
    using nill_step_entries [OF assms(1) Cons.prems(2), of y x r] Cons.prems(1) st
    by (simp add: p)
  then show ?case
    using Cons.IH [of ng' r'] Cons.prems(1) by (simp add: p st)
qed

lemma choices_neighbor:
  "choices g y x =
     concat (map (\<lambda>off. if neighbor 1 g y x off \<noteq> NULL_IDX then [neighbor 1 g y x off] else [])
               offsets)"
  by (simp add: choices_def neighbor_def Let_def split_def cong: if_cong)

lemma choices_has_self:
  assumes "shape g = (rows, cols)" "y < rows" "x < cols" "g ! y ! x = NILL_IDX"
  shows "NILL_IDX \<in> set (choices g y x)"
proof -
  have "neighbor 1 g y x (0, 0) = NILL_IDX"
    using neighbor_self [OF assms(1-3)] assms(4) by simp
  moreover have "(0, 0) \<in> set offsets" by (simp add: offsets_def)
  moreover have "NILL_IDX \<noteq> NULL_IDX" by (simp add: NILL_IDX_def NULL_IDX_def)
  ultimately show ?thesis
    unfolding choices_neighbor by (auto intro!: bexI [of _ "(0, 0)"])
qed

section \<open>The tables\<close>

lemma weights_eq:
  "weights = [(1, 0, 0), (2, 0, 1), (2, 1, 1), (2, 1, 0), (0, 2, 1), (1, 2, 1),
    (0, 1, 0), (0, 1, 1), (1, 0, 2), (2, 1, 2), (0, 0, 1), (0, 1, 2),
    (1, 1, 2), (1, 0, 1), (1, 2, 0), (1, 2, 2), (1, 1, 0), (2, 2, 1),
    (0, 0, 0), (2, 2, 2), (1, 1, 1)]"
  by (simp add: weights_def states_def)

lemma length_weights: "length weights = 21"
  by (simp add: weights_eq)

lemma length_states: "length states = 21"
  by (simp add: states_def)

lemma lookup_eq:
  "lookup = [[[18, 10, - 1], [6, 7, 11], [- 1, 4, - 1]],
             [[0, 13, 8], [16, 20, 12], [14, 5, 15]],
             [[- 1, 1, - 1], [3, 2, 9], [- 1, 17, 19]]]"
  by code_simp

lemma valid_index_cases:
  assumes "valid_index i"
  shows "i \<in> {0, 1, 2, 3, 4, 5, 6, 7, 8, 9, 10, 11, 12, 13, 14, 15, 16, 17, 18, 19, 20}"
proof -
  have "i \<in> {0..20}" using assms by (simp add: valid_index_def)
  also have "{0..20::int} = set [0..20]" by simp
  also have "[0..20::int] = [0, 1, 2, 3, 4, 5, 6, 7, 8, 9, 10, 11, 12, 13, 14, 15, 16, 17, 18, 19, 20]"
    by code_simp
  finally show ?thesis by simp
qed

lemma weights_at_valid: "valid_index i \<Longrightarrow> weights_at i = weights ! nat i"
  by (simp add: weights_at_def valid_index_def)

lemma weights_at_states:
  assumes "valid_index i"
  shows "weights_at i = weight (states ! nat i)"
proof -
  have "nat i < length states"
    using assms unfolding length_states valid_index_def by linarith
  then show ?thesis by (simp add: weights_at_valid [OF assms] weights_def)
qed

lemma weights_at_values:
  "weights_at 0 = (1, 0, 0)" "weights_at 1 = (2, 0, 1)" "weights_at 2 = (2, 1, 1)"
  "weights_at 3 = (2, 1, 0)" "weights_at 4 = (0, 2, 1)" "weights_at 5 = (1, 2, 1)"
  "weights_at 6 = (0, 1, 0)" "weights_at 7 = (0, 1, 1)" "weights_at 8 = (1, 0, 2)"
  "weights_at 9 = (2, 1, 2)" "weights_at 10 = (0, 0, 1)" "weights_at 11 = (0, 1, 2)"
  "weights_at 12 = (1, 1, 2)" "weights_at 13 = (1, 0, 1)" "weights_at 14 = (1, 2, 0)"
  "weights_at 15 = (1, 2, 2)" "weights_at 16 = (1, 1, 0)" "weights_at 17 = (2, 2, 1)"
  "weights_at 18 = (0, 0, 0)" "weights_at 19 = (2, 2, 2)" "weights_at 20 = (1, 1, 1)"
  by (simp_all add: weights_at_def weights_eq)

lemma lookup_at_values:
  "lookup_at (1, 0, 0) = 0" "lookup_at (2, 0, 1) = 1" "lookup_at (2, 1, 1) = 2"
  "lookup_at (2, 1, 0) = 3" "lookup_at (0, 2, 1) = 4" "lookup_at (1, 2, 1) = 5"
  "lookup_at (0, 1, 0) = 6" "lookup_at (0, 1, 1) = 7" "lookup_at (1, 0, 2) = 8"
  "lookup_at (2, 1, 2) = 9" "lookup_at (0, 0, 1) = 10" "lookup_at (0, 1, 2) = 11"
  "lookup_at (1, 1, 2) = 12" "lookup_at (1, 0, 1) = 13" "lookup_at (1, 2, 0) = 14"
  "lookup_at (1, 2, 2) = 15" "lookup_at (1, 1, 0) = 16" "lookup_at (2, 2, 1) = 17"
  "lookup_at (0, 0, 0) = 18" "lookup_at (2, 2, 2) = 19" "lookup_at (1, 1, 1) = 20"
  "lookup_at (0, 0, 2) = - 1" "lookup_at (0, 2, 0) = - 1" "lookup_at (0, 2, 2) = - 1"
  "lookup_at (2, 0, 0) = - 1" "lookup_at (2, 0, 2) = - 1" "lookup_at (2, 2, 0) = - 1"
  by (simp_all add: lookup_at_def lookup_eq table_index_def)

lemma lookup_at_weights_at: "valid_index i \<Longrightarrow> lookup_at (weights_at i) = i"
  using valid_index_cases [of i] by (auto simp: weights_at_values lookup_at_values)

lemma weights_at_range:
  assumes "valid_index i"
  shows "comp0 (weights_at i) \<in> {0, 1, 2}" "comp1 (weights_at i) \<in> {0, 1, 2}"
    "comp2 (weights_at i) \<in> {0, 1, 2}"
  using valid_index_cases [OF assms] by (auto simp: weights_at_values)

lemma weights_at_zero_iff:
  assumes "valid_index i"
  shows "comp0 (weights_at i) + comp1 (weights_at i) + comp2 (weights_at i) = 0 \<longleftrightarrow> i = NULL_IDX"
  using valid_index_cases [OF assms] by (auto simp: weights_at_values NULL_IDX_def)

lemma valid_in_bounds: "valid_index i \<Longrightarrow> in_bounds i"
  by (simp add: valid_index_def in_bounds_def length_weights)

lemma valid_grid_in_bounds: "valid_grid g \<Longrightarrow> list_all (list_all in_bounds) g"
  by (auto simp: valid_grid_def list_all_iff valid_in_bounds)

lemma valid_grid_has_shape:
  "valid_grid g \<Longrightarrow> shape g = (rows, cols) \<Longrightarrow> has_shape rows cols g"
  using rect_has_shape [of g] by (simp add: valid_grid_def)

lemma valid_grid_cell:
  assumes "valid_grid g" "shape g = (rows, cols)" "y < rows" "x < cols"
  shows "valid_index (g ! y ! x)"
proof -
  have h: "has_shape rows cols g" by (rule valid_grid_has_shape [OF assms(1,2)])
  then have "g ! y \<in> set g" "g ! y ! x \<in> set (g ! y)"
    using assms(3,4) by (simp_all add: has_shape_def)
  then show ?thesis using assms(1) by (auto simp: valid_grid_def list_all_iff)
qed

section \<open>Rounding\<close>

lemma rint_div_exact: "0 < q \<Longrightarrow> rint_div (q * a) q = a"
  by (simp add: rint_div_def Let_def)

lemma rint_div_ninth:
  "a \<in> {0, 1, 2} \<Longrightarrow> rint_div (8 * a + 1) 9 = a"
  by (auto simp: rint_div_def Let_def)

lemma rint_div_range:
  assumes "0 < q" "0 \<le> p" "p \<le> 2 * q"
  shows "rint_div p q \<in> {0, 1, 2}"
proof -
  have d0: "0 \<le> p div q" using assms by (simp add: pos_imp_zdiv_nonneg_iff)
  have "p div q \<le> (2 * q) div q" using assms by (intro zdiv_mono1) auto
  then have d2: "p div q \<le> 2" using assms by simp
  have r: "0 \<le> p mod q" "p mod q < q" using assms by simp_all
  have eq: "p = q * (p div q) + p mod q" by simp
  have top: "p mod q = 0" if "p div q = 2"
  proof -
    have "p = 2 * q + p mod q" using eq that by simp
    then show ?thesis using assms(3) r(1) by linarith
  qed
  show ?thesis
  proof (cases "p div q = 2")
    case True
    then show ?thesis using top assms(1) by (simp add: rint_div_def Let_def)
  next
    case False
    then have "p div q = 0 \<or> p div q = 1" using d0 d2 by linarith
    then show ?thesis by (auto simp: rint_div_def Let_def)
  qed
qed

text \<open>The rounded quotient is a nearest integer: it is at most one half away.\<close>

lemma rint_div_nearest:
  assumes "0 < q"
  shows "2 * \<bar>q * rint_div p q - p\<bar> \<le> q"
proof -
  have r: "0 \<le> p mod q" "p mod q < q" using assms by simp_all
  have lo: "q * (p div q) - p = - (p mod q)"
    using mult_div_mod_eq [of q p] by linarith
  have hi: "q * (p div q + 1) - p = q - p mod q"
    using lo by (simp add: algebra_simps)
  show ?thesis
    unfolding rint_div_def Let_def using r by (simp add: lo hi)
qed

lemma rint_div_ninth_near: "2 * \<bar>9 * rint_div p 9 - p\<bar> < 9"
  using rint_div_nearest [of 9 p] by presburger

section \<open>Ranges: the table lookups stay inside the table\<close>

lemma weights_triple_ok: "w \<in> set weights \<Longrightarrow> triple_ok w"
  by (auto simp: weights_eq triple_ok_def)

lemma weights_at_in_table: "in_bounds i \<Longrightarrow> weights_at i \<in> set weights"
  unfolding weights_at_def in_bounds_def by (intro nth_mem) auto

lemma weights_at_ok: "in_bounds i \<Longrightarrow> triple_ok (weights_at i)"
  by (rule weights_triple_ok [OF weights_at_in_table])

lemma in_bounds_cell:
  assumes "has_shape rows cols g" "list_all (list_all in_bounds) g" "y < rows" "x < cols"
  shows "in_bounds (g ! y ! x)"
proof -
  have "g ! y \<in> set g" "g ! y ! x \<in> set (g ! y)"
    using assms(1,3,4) by (simp_all add: has_shape_def)
  then show ?thesis using assms(2) by (auto simp: list_all_iff)
qed

lemma neighbor_in_bounds:
  assumes "has_shape rows cols g" "list_all (list_all in_bounds) g" "y < rows" "x < cols"
  shows "in_bounds (neighbor dir g y x off)"
proof -
  obtain di dj where off: "off = (di, dj)" by (cases off) auto
  have rows: "0 < rows" and cols: "0 < cols" using assms(3,4) by simp_all
  show ?thesis
    unfolding neighbor_def has_shape_shape [OF assms(1) rows] off prod.case
    by (rule in_bounds_cell [OF assms(1,2)]) (intro wrap_less rows cols)+
qed

lemma coefficient_range:
  assumes "triple_ok w"
  shows "0 \<le> coefficient w off" "coefficient w off \<le> 4"
proof -
  obtain a b c where w: "w = (a, b, c)" by (cases w) auto
  obtain di dj where off: "off = (di, dj)" by (cases off) auto
  have p: "pick d a b c \<in> {0, 1, 2}" for d
    using assms by (auto simp: w triple_ok_def pick_def)
  have "pick dj a b c * pick di a b c \<in> {0, 1, 2, 4}"
    using p [of di] p [of dj] by auto
  then show "0 \<le> coefficient w off" "coefficient w off \<le> 4"
    by (auto simp: coefficient_def w off)
qed

lemma total_filter_range:
  assumes "has_shape rows cols g" "list_all (list_all in_bounds) g" "y < rows" "x < cols"
  shows "0 \<le> total_filter g ! y ! x" "total_filter g ! y ! x \<le> 36"
proof -
  have ok: "triple_ok (weights_at (g ! y ! x))"
    by (rule weights_at_ok [OF in_bounds_cell [OF assms]])
  obtain a b c where w: "weights_at (g ! y ! x) = (a, b, c)"
    by (cases "weights_at (g ! y ! x)") auto
  have "a + b + c \<in> {0, 1, 2, 3, 4, 5, 6}"
    using ok by (auto simp: w triple_ok_def)
  then have "(a + b + c)\<^sup>2 \<in> {0, 1, 4, 9, 16, 25, 36}" by auto
  then show "0 \<le> total_filter g ! y ! x" "total_filter g ! y ! x \<le> 36"
    by (auto simp: total_filter_cell [OF assms(1,3,4)] w)
qed

lemma vote_range:
  assumes "has_shape rows cols g" "list_all (list_all in_bounds) g" "y < rows" "x < cols"
    and k: "\<And>w. triple_ok w \<Longrightarrow> 0 \<le> k w \<and> k w \<le> 2"
  shows "0 \<le> vote (- 1) g y x k" "vote (- 1) g y x k \<le> 2 * total_filter g ! y ! x"
proof -
  let ?w = "weights_at (g ! y ! x)"
  have ok: "triple_ok ?w" by (rule weights_at_ok [OF in_bounds_cell [OF assms(1-4)]])
  have nb: "0 \<le> k (weights_at (neighbor (- 1) g y x off)) \<and>
            k (weights_at (neighbor (- 1) g y x off)) \<le> 2" for off
    by (rule k [OF weights_at_ok [OF neighbor_in_bounds [OF assms(1-4)]]])
  have tm: "0 \<le> coefficient ?w off * k (weights_at (neighbor (- 1) g y x off)) \<and>
      coefficient ?w off * k (weights_at (neighbor (- 1) g y x off)) \<le> 2 * coefficient ?w off"
    for off
  proof -
    have c: "0 \<le> coefficient ?w off" by (rule coefficient_range(1) [OF ok])
    have "coefficient ?w off * k (weights_at (neighbor (- 1) g y x off)) \<le> coefficient ?w off * 2"
      using nb [of off] by (intro mult_left_mono c) simp
    moreover have "0 \<le> coefficient ?w off * k (weights_at (neighbor (- 1) g y x off))"
      using nb [of off] c by simp
    ultimately show ?thesis by simp
  qed
  show "0 \<le> vote (- 1) g y x k"
    unfolding vote_def by (rule sum_list_nonneg) (use tm in auto)
  have "vote (- 1) g y x k \<le> (\<Sum>off\<leftarrow>offsets. 2 * coefficient ?w off)"
    unfolding vote_def by (rule sum_list_mono) (use tm in auto)
  then show "vote (- 1) g y x k \<le> 2 * total_filter g ! y ! x"
    by (simp add: nth_total_filter [OF assms(1,3,4)] sum_list_const_mult)
qed

lemma vote_comp_range:
  assumes "has_shape rows cols g" "list_all (list_all in_bounds) g" "y < rows" "x < cols"
  shows "0 \<le> vote (- 1) g y x comp0" "vote (- 1) g y x comp0 \<le> 2 * total_filter g ! y ! x"
    and "0 \<le> vote (- 1) g y x comp1" "vote (- 1) g y x comp1 \<le> 2 * total_filter g ! y ! x"
    and "0 \<le> vote (- 1) g y x comp2" "vote (- 1) g y x comp2 \<le> 2 * total_filter g ! y ! x"
  by (rule vote_range [OF assms]; auto simp: triple_ok_def)+

text \<open>
  The triples that index the lookup table are always inside it, so the lookup of
  \<open>update_grid\<close> never raises; and the quotients that are rounded have a numerator
  between 0 and 72 and a denominator between 1 and 36.
\<close>

lemma weighted_sum_range:
  assumes "has_shape rows cols g" "list_all (list_all in_bounds) g" "y < rows" "x < cols"
  shows "0 \<le> comp0 (weighted_sum g ! y ! x) \<and> comp0 (weighted_sum g ! y ! x) \<le> 72"
    and "0 \<le> comp1 (weighted_sum g ! y ! x) \<and> comp1 (weighted_sum g ! y ! x) \<le> 72"
    and "0 \<le> comp2 (weighted_sum g ! y ! x) \<and> comp2 (weighted_sum g ! y ! x) \<le> 72"
  using vote_comp_range [OF assms] total_filter_range(2) [OF assms]
  by (simp_all add: nth_weighted_sum [OF assms(1,3,4)])

lemma new_components_ok:
  assumes "has_shape rows cols g" "list_all (list_all in_bounds) g" "y < rows" "x < cols"
  shows "triple_ok (new_components g ! y ! x)"
proof (cases "total_filter g ! y ! x = 0")
  case True
  then show ?thesis
    by (simp add: nth_new_components [OF assms(1,3,4)]
          weights_at_ok [OF in_bounds_cell [OF assms]])
next
  case False
  then have q: "0 < total_filter g ! y ! x"
    using total_filter_range(1) [OF assms] by simp
  note v = vote_comp_range [OF assms]
  have "rint_div (comp0 (weighted_sum g ! y ! x)) (total_filter g ! y ! x) \<in> {0, 1, 2}"
    "rint_div (comp1 (weighted_sum g ! y ! x)) (total_filter g ! y ! x) \<in> {0, 1, 2}"
    "rint_div (comp2 (weighted_sum g ! y ! x)) (total_filter g ! y ! x) \<in> {0, 1, 2}"
    unfolding nth_weighted_sum [OF assms(1,3,4)]
    by (rule rint_div_range [OF q v(1,2)] rint_div_range [OF q v(3,4)]
          rint_div_range [OF q v(5,6)])+
  then show ?thesis
    using False by (simp add: nth_new_components [OF assms(1,3,4)] triple_ok_def rint3_def)
qed

lemma twist_ok: "triple_ok (twist w)"
proof -
  have "(n + 1) mod 3 \<in> {0, 1, 2}" for n :: int
    using pos_mod_sign [of 3 "n + 1"] pos_mod_bound [of 3 "n + 1"] by auto
  then show ?thesis by (simp add: triple_ok_def twist_def)
qed

lemma lookup_at_range: "triple_ok w \<Longrightarrow> - 1 \<le> lookup_at w \<and> lookup_at w \<le> 20"
  by (cases w) (auto simp: triple_ok_def lookup_at_values)

lemma triple_ok_in_table: "triple_ok w \<Longrightarrow> in_table w"
  by (cases w) (auto simp: triple_ok_def in_table_def)

lemma new_components_in_table:
  assumes "rect g" "list_all (list_all in_bounds) g"
  shows "list_all (list_all in_table) (new_components g)"
proof (cases g)
  case Nil
  then show ?thesis by (simp add: new_components_empty)
next
  case (Cons row rest)
  have h: "has_shape (fst (shape g)) (snd (shape g)) g" by (rule rect_has_shape [OF assms(1)])
  have rows: "0 < fst (shape g)" using Cons by (simp add: shape_def)
  show ?thesis
    by (rule list_all_cells [OF has_shape_new_components [OF h rows]])
       (rule triple_ok_in_table [OF new_components_ok [OF h assms(2)]])
qed

section \<open>The update on valid grids\<close>

lemma update_grid_in_bounds:
  "rect g \<Longrightarrow> list_all (list_all in_bounds) g \<Longrightarrow>
   update_grid g r = Inr (fold (nill_step g) (nill_indices g) (masked g (new_components g), r))"
  by (simp add: update_grid_def finish_def new_components_in_table)

lemma update_grid_valid:
  "valid_grid g \<Longrightarrow>
   update_grid g r = Inr (fold (nill_step g) (nill_indices g) (masked g (new_components g), r))"
  by (simp add: update_grid_in_bounds valid_grid_in_bounds valid_grid_def)

lemma update_grid_empty: "update_grid [] r = Inr ([], r)"
  by (simp add: update_grid_def finish_def new_components_empty nill_indices_def argwhere_def
        masked_def Let_def zip2d_def map2d_def)

lemma update_grid_no_nill:
  assumes "valid_grid g" "nill_indices g = []"
  shows "update_grid g r = Inr (masked g (new_components g), r)"
  by (simp add: update_grid_valid [OF assms(1)] assms(2))

text \<open>What the update writes into a cell that is not Nill.\<close>

lemma update_grid_cell:
  assumes "valid_grid g" "shape g = (rows, cols)" "y < rows" "x < cols"
    and "g ! y ! x \<noteq> NILL_IDX" "update_grid g r = Inr (g', r')"
  shows "g' ! y ! x =
         (if g ! y ! x = NULL_IDX then NULL_IDX
          else if g ! y ! x = NA_IDX then lookup_at (twist (new_components g ! y ! x))
          else lookup_at (new_components g ! y ! x))"
proof -
  have h: "has_shape rows cols g" by (rule valid_grid_has_shape [OF assms(1,2)])
  have rows: "0 < rows" using assms(3) by simp
  have "g' = fst (fold (nill_step g) (nill_indices g) (masked g (new_components g), r))"
    using assms(6) by (simp add: update_grid_valid [OF assms(1)])
  then have "g' ! y ! x = masked g (new_components g) ! y ! x"
    by (simp add: fold_nill_step_other [OF not_Nill_not_listed [OF assms(5)]])
  then show ?thesis
    by (simp add: nth_masked [OF h has_shape_new_components [OF h rows] assms(3,4)])
qed

text \<open>
  What does hold of the result on every valid grid: the update returns, the result has
  the dimensions of the input, and every entry is a state index or the sentinel \<open>-1\<close>.
\<close>

lemma update_grid_shape_range:
  assumes "valid_grid g" "shape g = (rows, cols)"
  shows "\<exists>g' r'. update_grid g r = Inr (g', r') \<and> has_shape rows cols g' \<and>
           (\<forall>y < rows. \<forall>x < cols. - 1 \<le> g' ! y ! x \<and> g' ! y ! x \<le> 20)"
proof (cases "rows = 0")
  case True
  then have "g = []" using assms(2) by (simp add: shape_def)
  then show ?thesis
    using assms(2) by (simp add: update_grid_empty has_shape_def shape_def)
next
  case False
  then have rows: "0 < rows" by simp
  let ?P = "\<lambda>v::int. - 1 \<le> v \<and> v \<le> 20"
  have h: "has_shape rows cols g" by (rule valid_grid_has_shape [OF assms])
  have b: "list_all (list_all in_bounds) g" by (rule valid_grid_in_bounds [OF assms(1)])
  have "?P (g ! y ! x)" if "y < rows" "x < cols" for y x
    using valid_grid_cell [OF assms that] by (simp add: valid_index_def)
  then have g: "entries_in rows cols ?P g"
    using h by (simp add: entries_in_def)
  have nc: "has_shape rows cols (new_components g)"
    by (rule has_shape_new_components [OF h rows])
  have "?P (masked g (new_components g) ! y ! x)" if yx: "y < rows" "x < cols" for y x
    using lookup_at_range [OF new_components_ok [OF h b yx]]
      lookup_at_range [OF twist_ok, of "new_components g ! y ! x"]
    by (simp add: nth_masked [OF h nc yx] NULL_IDX_def)
  then have m: "entries_in rows cols ?P (masked g (new_components g))"
    using has_shape_masked [OF h nc] by (simp add: entries_in_def)
  have "entries_in rows cols ?P
          (fst (fold (nill_step g) (nill_indices g) (masked g (new_components g), r)))"
    by (rule fold_nill_step_entries [OF g _ m]) (use nill_indices_inside [OF h] in blast)
  then show ?thesis
    by (cases "fold (nill_step g) (nill_indices g) (masked g (new_components g), r)")
       (simp add: update_grid_valid [OF assms(1)] entries_in_def)
qed

text \<open>
  What does hold of a Nill cell on every valid grid: its next state is one of its
  candidates, the cell itself is always among them, and when the 8 surrounding cells are
  all Null the cell stays Nill whatever the random source hands out.
\<close>

lemma nill_cell_next:
  assumes "valid_grid g" "shape g = (rows, cols)" "y < rows" "x < cols"
    and "g ! y ! x = NILL_IDX" "update_grid g r = Inr (g', r')"
  shows "g' ! y ! x \<in> set (choices g y x)" "NILL_IDX \<in> set (choices g y x)"
proof -
  have h: "has_shape rows cols g" by (rule valid_grid_has_shape [OF assms(1,2)])
  have rows: "0 < rows" using assms(3) by simp
  show self: "NILL_IDX \<in> set (choices g y x)" by (rule choices_has_self [OF assms(2-5)])
  then have ne: "choices g y x \<noteq> []" by auto
  have m: "has_shape rows cols (masked g (new_components g))"
    by (intro has_shape_masked has_shape_new_components h rows)
  have "(y, x) \<in> set (nill_indices g)"
    using assms(3-5) h by (simp add: nill_indices_def set_argwhere has_shape_def)
  then have "fst (fold (nill_step g) (nill_indices g) (masked g (new_components g), r)) ! y ! x
             \<in> set (choices g y x)"
    by (intro fold_nill_step_chosen [OF assms(3,4) ne m]) simp
  then show "g' ! y ! x \<in> set (choices g y x)"
    using assms(6) by (simp add: update_grid_valid [OF assms(1)])
qed

lemma nill_cell_all_null:
  assumes "valid_grid g" "shape g = (rows, cols)" "y < rows" "x < cols"
    and "g ! y ! x = NILL_IDX" "update_grid g r = Inr (g', r')"
    and "\<forall>off \<in> set offsets. off \<noteq> (0, 0) \<longrightarrow> neighbor 1 g y x off = NULL_IDX"
  shows "g' ! y ! x = NILL_IDX"
proof -
  have "set (choices g y x) \<subseteq> {NILL_IDX}"
    using assms(7) neighbor_self [OF assms(2-4), of 1] assms(5)
    unfolding choices_neighbor by (auto split: if_splits)
  then show ?thesis using nill_cell_next(1) [OF assms(1-6)] by auto
qed

section \<open>Uniform grids\<close>

lemma ordinary_valid: "ordinary X \<Longrightarrow> valid_index X"
  by (simp add: ordinary_def)

lemma valid_grid_full: "valid_index X \<Longrightarrow> valid_grid (full rows cols X)"
  by (cases rows) (auto simp: valid_grid_def rect_def shape_def full_def list_all_iff)

lemma shape_full: "0 < rows \<Longrightarrow> shape (full rows cols X) = (rows, cols)"
  by (intro has_shape_shape has_shape_full)

lemma neighbor_full:
  assumes "y < rows" "x < cols"
  shows "neighbor dir (full rows cols X) y x off = X"
proof -
  obtain di dj where off: "off = (di, dj)" by (cases off) auto
  have rows: "0 < rows" and cols: "0 < cols" using assms by simp_all
  show ?thesis
    unfolding neighbor_def shape_full [OF rows] off prod.case
    by (rule nth_full) (intro wrap_less rows cols)+
qed

lemma vote_full:
  assumes "y < rows" "x < cols"
  shows "vote dir (full rows cols X) y x k =
         sum_list (map (coefficient (weights_at X)) offsets) * k (weights_at X)"
  unfolding vote_def by (simp add: neighbor_full [OF assms] nth_full [OF assms] sum_list_mult_const)

lemma new_components_full:
  assumes "ordinary X" "y < rows" "x < cols"
  shows "new_components (full rows cols X) ! y ! x = weights_at X"
proof -
  let ?g = "full rows cols X"
  let ?q = "sum_list (map (coefficient (weights_at X)) offsets)"
  have h: "has_shape rows cols ?g" by (rule has_shape_full)
  have v: "valid_index X" by (rule ordinary_valid [OF assms(1)])
  have tf: "total_filter ?g ! y ! x = ?q"
    by (simp add: nth_total_filter [OF h assms(2,3)] nth_full [OF assms(2,3)])
  obtain a b c where w: "weights_at X = (a, b, c)" by (cases "weights_at X") auto
  have "a + b + c \<noteq> 0"
    using weights_at_zero_iff [OF v] assms(1) by (simp add: w ordinary_def)
  then have q: "0 < ?q" by (simp add: w total_filter_square)
  have "rint3 (weighted_sum ?g ! y ! x) ?q = weights_at X"
    by (rule vec3_eqI)
       (simp_all add: rint3_def nth_weighted_sum [OF h assms(2,3)] vote_full [OF assms(2,3)]
          rint_div_exact [OF q])
  then show ?thesis
    using q by (simp add: nth_new_components [OF h assms(2,3)] tf)
qed

section \<open>An N/A cell among equal neighbours\<close>

lemma coefficient_NA: "coefficient (1, 1, 1) off = 1"
  by (cases off) (simp add: coefficient_def pick_def)

text \<open>
  The nine coefficients of an N/A cell are all 1, so its weighted sum is the plain sum
  over the nine cells of the neighbourhood, whichever way the offsets are paired with them.
\<close>

lemma vote_NA_symmetric:
  assumes "weights_at (g ! y ! x) = (1, 1, 1)"
  shows "vote (- 1) g y x k = vote 1 g y x k"
  by (simp add: vote_def assms coefficient_NA offsets_def neighbor_mirror)

lemma vote_NA_surrounded:
  assumes "shape g = (rows, cols)" "y < rows" "x < cols" "g ! y ! x = NA_IDX"
    and "\<forall>off \<in> set offsets. off \<noteq> (0, 0) \<longrightarrow> neighbor 1 g y x off = X"
  shows "vote 1 g y x k = 8 * k (weights_at X) + k (1, 1, 1)"
proof -
  have n: "neighbor 1 g y x (di, dj) = X"
    if "(di, dj) \<in> set offsets" "(di, dj) \<noteq> (0, 0)" for di dj
    using assms(5) that by auto
  have s: "neighbor 1 g y x (0, 0) = NA_IDX"
    using neighbor_self [OF assms(1-3)] assms(4) by simp
  have w: "weights_at (g ! y ! x) = (1, 1, 1)"
    by (simp add: assms(4) NA_IDX_def weights_at_values)
  have na: "weights_at NA_IDX = (1, 1, 1)"
    by (simp add: NA_IDX_def weights_at_values)
  have "vote 1 g y x k = (\<Sum>off\<leftarrow>offsets. k (weights_at (neighbor 1 g y x off)))"
    by (simp add: vote_def w coefficient_NA)
  also have "\<dots> = 8 * k (weights_at X) + k (1, 1, 1)"
    unfolding offsets_def by (simp add: n s na offsets_def)
  finally show ?thesis .
qed

section \<open>The claims\<close>

subsection \<open>C1\<close>

text \<open>
  C1.  The update does not keep the entries inside \<open>[0, 20]\<close>.  The grid
  \<open>unmapped_demo\<close> holds only Red, Pink and Orange cells.  At its cell (2, 2), an Orange
  cell, the weighted sum is (14, 1, 4) and the filter total 9, so the rounded average is
  (2, 0, 0), a triple no state has; the table holds \<open>-1\<close> there and the returned grid has
  \<open>-1\<close> at (2, 2), whatever the random source.
\<close>

theorem unmapped_triple_leaves_range:
  "valid_grid unmapped_demo \<and>
   weighted_sum unmapped_demo ! 2 ! 2 = (14, 1, 4) \<and> total_filter unmapped_demo ! 2 ! 2 = 9 \<and>
   new_components unmapped_demo ! 2 ! 2 = (2, 0, 0) \<and> lookup_at (2, 0, 0) = - 1 \<and>
   update_grid unmapped_demo r = Inr ([[0, 1, 0], [0, 3, 1], [1, 1, - 1]], r)"
proof -
  have v: "valid_grid unmapped_demo" by code_simp
  have n: "nill_indices unmapped_demo = []" by code_simp
  have m: "masked unmapped_demo (new_components unmapped_demo) = [[0, 1, 0], [0, 3, 1], [1, 1, - 1]]"
    by code_simp
  have c: "weighted_sum unmapped_demo ! 2 ! 2 = (14, 1, 4)"
    "total_filter unmapped_demo ! 2 ! 2 = 9"
    "new_components unmapped_demo ! 2 ! 2 = (2, 0, 0)"
    by code_simp+
  show ?thesis
    using v c by (simp add: update_grid_no_nill [OF v n] m lookup_at_values)
qed

subsection \<open>C2\<close>

text \<open>
  C2.  The candidates of a Nill cell are collected over all nine offsets, the cell itself
  included.  In \<open>nill_demo\<close> the Nill cell (1, 1) has one neighbour that is not Null, the
  Red cell (0, 0); its candidates are Red and Nill, and a draw that selects the second one
  leaves the cell Nill, while a draw that selects the first makes it Red.
\<close>

theorem nill_cell_is_its_own_candidate:
  "valid_grid nill_demo \<and> choices nill_demo 1 1 = [0, 19] \<and>
   grid_of (update_grid nill_demo one_rng) ! 1 ! 1 = 19 \<and>
   grid_of (update_grid nill_demo zero_rng) ! 1 ! 1 = 0"
proof -
  have "valid_grid nill_demo" by code_simp
  moreover have "choices nill_demo 1 1 = [0, 19]" by code_simp
  moreover have "grid_of (update_grid nill_demo one_rng) ! 1 ! 1 = 19" by code_simp
  moreover have "grid_of (update_grid nill_demo zero_rng) ! 1 ! 1 = 0" by code_simp
  ultimately show ?thesis by blast
qed

subsection \<open>C3\<close>

text \<open>
  C3.  The weighted sum does not pair the coefficient of the offset \<open>(di, dj)\<close> with the
  cell at \<open>((r + di) mod rows, (c + dj) mod cols)\<close>.  In \<open>red_blue\<close> the Red cell (0, 0)
  has one coefficient that is not zero, the one of the offset (-1, -1).  The cell at that
  offset is the Red cell (2, 2), so the stated sum is (1, 0, 0); \<open>np.roll\<close> with shift
  \<open>di\<close> brings row \<open>r - di\<close> to row \<open>r\<close>, so the loop multiplies the coefficient with
  the weight of the opposite cell, the Blue cell (1, 1), and the weighted sum is (0, 0, 1).
\<close>

theorem weighted_sum_reads_opposite_cell:
  "valid_grid red_blue \<and>
   map (coefficient (weights_at (red_blue ! 0 ! 0))) offsets = [1, 0, 0, 0, 0, 0, 0, 0, 0] \<and>
   neighbor 1 red_blue 0 0 (- 1, - 1) = 0 \<and>
   neighbor (- 1) red_blue 0 0 (- 1, - 1) = 10 \<and>
   (vote 1 red_blue 0 0 comp0, vote 1 red_blue 0 0 comp1, vote 1 red_blue 0 0 comp2) = (1, 0, 0) \<and>
   weighted_sum red_blue ! 0 ! 0 = (0, 0, 1)"
proof -
  have "valid_grid red_blue" by code_simp
  moreover have "map (coefficient (weights_at (red_blue ! 0 ! 0))) offsets = [1, 0, 0, 0, 0, 0, 0, 0, 0]"
    by code_simp
  moreover have "neighbor 1 red_blue 0 0 (- 1, - 1) = 0" by code_simp
  moreover have "neighbor (- 1) red_blue 0 0 (- 1, - 1) = 10" by code_simp
  moreover have "(vote 1 red_blue 0 0 comp0, vote 1 red_blue 0 0 comp1, vote 1 red_blue 0 0 comp2) = (1, 0, 0)"
    by code_simp
  moreover have "weighted_sum red_blue ! 0 ! 0 = (0, 0, 1)" by code_simp
  ultimately show ?thesis by blast
qed

subsection \<open>C4\<close>

text \<open>
  C4, as stated, has all eight border cells of \<open>red_blue\<close> stay Red (index 0).  They do
  not: every border cell of a 3 x 3 torus has the Blue centre among its eight neighbours,
  and a Red cell, whose only coefficient that is not zero is the one of the offset
  (-1, -1), copies the cell paired with that offset.  With the offsets paired as the
  statement of the weighted vote pairs them, that cell is the centre for the border cell
  (2, 2), whose rounded average is then the weight of Blue (index 10).
\<close>

theorem red_blue_border_counterexample:
  "map (cell_at (grid_of (update_grid red_blue zero_rng))) border_cells \<noteq> replicate 8 0 \<and>
   neighbor 1 red_blue 2 2 (- 1, - 1) = 10 \<and>
   lookup_at (rint3 (vote 1 red_blue 2 2 comp0, vote 1 red_blue 2 2 comp1, vote 1 red_blue 2 2 comp2)
               (total_filter red_blue ! 2 ! 2)) = 10"
proof -
  have "map (cell_at (grid_of (update_grid red_blue zero_rng))) border_cells \<noteq> replicate 8 0"
    by code_simp
  moreover have "neighbor 1 red_blue 2 2 (- 1, - 1) = 10" by code_simp
  moreover have
    "lookup_at (rint3 (vote 1 red_blue 2 2 comp0, vote 1 red_blue 2 2 comp1, vote 1 red_blue 2 2 comp2)
               (total_filter red_blue ! 2 ! 2)) = 10"
    by code_simp
  ultimately show ?thesis by blast
qed

text \<open>
  C4, amended.  On the 3 x 3 grid that is Red except for a Blue centre, one update sends
  the centre to the table lookup of the rounded weighted average of its neighbourhood:
  the weighted sum is (1, 0, 0), the filter total 1, the average (1, 0, 0), the state Red.
  Of the eight border cells seven stay Red and one becomes Blue.
\<close>

theorem red_blue_step:
  "\<exists>g'. update_grid red_blue r = Inr (g', r) \<and>
         (vote 1 red_blue 1 1 comp0, vote 1 red_blue 1 1 comp1, vote 1 red_blue 1 1 comp2) = (1, 0, 0) \<and>
         weighted_sum red_blue ! 1 ! 1 = (1, 0, 0) \<and> total_filter red_blue ! 1 ! 1 = 1 \<and>
         g' ! 1 ! 1 = lookup_at (1, 0, 0) \<and> g' ! 1 ! 1 = 0 \<and>
         count_list (map (cell_at g') border_cells) 0 = 7 \<and>
         count_list (map (cell_at g') border_cells) 10 = 1"
proof -
  have v: "valid_grid red_blue" by code_simp
  have n: "nill_indices red_blue = []" by code_simp
  have m: "masked red_blue (new_components red_blue) = [[10, 0, 0], [0, 0, 0], [0, 0, 0]]"
    by code_simp
  have c: "(vote 1 red_blue 1 1 comp0, vote 1 red_blue 1 1 comp1, vote 1 red_blue 1 1 comp2) = (1, 0, 0)"
    "weighted_sum red_blue ! 1 ! 1 = (1, 0, 0)" "total_filter red_blue ! 1 ! 1 = 1"
    by code_simp+
  have b: "count_list (map (cell_at [[10, 0, 0], [0, 0, 0], [0, 0, 0]]) border_cells) 0 = 7"
    "count_list (map (cell_at [[10, 0, 0], [0, 0, 0], [0, 0, 0]]) border_cells) 10 = 1"
    "[[10, 0, 0], [0, 0, 0], [0, 0, 0 :: int]] ! 1 ! 1 = 0"
    by code_simp+
  show ?thesis
    unfolding update_grid_no_nill [OF v n] m
    using c b by (simp add: lookup_at_values)
qed

subsection \<open>C5\<close>

text \<open>
  C5.  A cell that is Null (index 18) before the update is Null after it, whatever its
  neighbours and whatever the random source: on every valid grid the update returns, and
  the returned grid has Null at that cell.
\<close>

theorem null_is_absorbing:
  assumes "valid_grid g" "shape g = (rows, cols)" "y < rows" "x < cols"
    and "g ! y ! x = NULL_IDX"
  shows "\<exists>g' r'. update_grid g r = Inr (g', r') \<and> g' ! y ! x = NULL_IDX"
proof -
  obtain g' r' where u: "update_grid g r = Inr (g', r')"
    by (cases "fold (nill_step g) (nill_indices g) (masked g (new_components g), r)")
       (simp add: update_grid_valid [OF assms(1)])
  have "g ! y ! x \<noteq> NILL_IDX" using assms(5) by (simp add: NULL_IDX_def NILL_IDX_def)
  then have "g' ! y ! x = NULL_IDX"
    using update_grid_cell [OF assms(1-4) _ u] assms(5) by simp
  then show ?thesis using u by blast
qed

theorem null_is_absorbing_witness:
  "valid_grid null_demo \<and> shape null_demo = (3, 3) \<and> null_demo ! 1 ! 1 = NULL_IDX \<and>
   (\<exists>g' r'. update_grid null_demo (\<lambda>i. i) = Inr (g', r') \<and> g' ! 1 ! 1 = NULL_IDX)"
proof -
  have v: "valid_grid null_demo"
    by (simp add: valid_grid_def rect_def shape_def null_demo_def valid_index_def)
  have s: "shape null_demo = (3, 3)" by (simp add: shape_def null_demo_def)
  have n: "null_demo ! 1 ! 1 = NULL_IDX" by (simp add: null_demo_def NULL_IDX_def)
  show ?thesis
    using null_is_absorbing [OF v s _ _ n, of "\<lambda>i. i"] v s n by simp
qed

subsection \<open>C6\<close>

text \<open>
  C6.  On a valid grid, take a cell in state N/A (index 20).  Its filter total is 9 and
  its rounded weighted average is the triple of the integers nearest to the weighted sums
  divided by 9.  The cell steps to the table lookup of that triple with every component
  increased by one modulo 3.  When the 8 surrounding cells all carry one ordinary state
  \<open>X\<close> with weight \<open>(a, b, c)\<close>, the rounded average is \<open>(a, b, c)\<close>, and the cell steps
  to the state whose weight is \<open>((a + 1) mod 3, (b + 1) mod 3, (c + 1) mod 3)\<close> whenever
  the table has such a state.
\<close>

theorem twist_rule:
  assumes "valid_grid g" "shape g = (rows, cols)" "y < rows" "x < cols"
    and "g ! y ! x = NA_IDX"
  shows "\<exists>g' r' n0 n1 n2. update_grid g r = Inr (g', r') \<and>
           total_filter g ! y ! x = 9 \<and>
           2 * \<bar>9 * n0 - vote 1 g y x comp0\<bar> < 9 \<and>
           2 * \<bar>9 * n1 - vote 1 g y x comp1\<bar> < 9 \<and>
           2 * \<bar>9 * n2 - vote 1 g y x comp2\<bar> < 9 \<and>
           g' ! y ! x = lookup_at ((n0 + 1) mod 3, (n1 + 1) mod 3, (n2 + 1) mod 3) \<and>
           (\<forall>X a b c.
               ordinary X \<and> weight (states ! nat X) = (a, b, c) \<and>
               (\<forall>off \<in> set offsets. off \<noteq> (0, 0) \<longrightarrow> neighbor 1 g y x off = X) \<longrightarrow>
               (n0, n1, n2) = (a, b, c) \<and>
               (\<forall>i. valid_index i \<and>
                    weight (states ! nat i) = ((a + 1) mod 3, (b + 1) mod 3, (c + 1) mod 3) \<longrightarrow>
                    g' ! y ! x = i))"
proof -
  have h: "has_shape rows cols g" by (rule valid_grid_has_shape [OF assms(1,2)])
  obtain g' r' where u: "update_grid g r = Inr (g', r')"
    by (cases "fold (nill_step g) (nill_indices g) (masked g (new_components g), r)")
       (simp add: update_grid_valid [OF assms(1)])
  have w: "weights_at (g ! y ! x) = (1, 1, 1)"
    by (simp add: assms(5) NA_IDX_def weights_at_values)
  have tf: "total_filter g ! y ! x = 9"
    by (simp add: total_filter_cell [OF h assms(3,4)] w)
  define n0 where "n0 = rint_div (vote 1 g y x comp0) 9"
  define n1 where "n1 = rint_div (vote 1 g y x comp1) 9"
  define n2 where "n2 = rint_div (vote 1 g y x comp2) 9"
  have near: "2 * \<bar>9 * n0 - vote 1 g y x comp0\<bar> < 9" "2 * \<bar>9 * n1 - vote 1 g y x comp1\<bar> < 9"
    "2 * \<bar>9 * n2 - vote 1 g y x comp2\<bar> < 9"
    unfolding n0_def n1_def n2_def by (rule rint_div_ninth_near)+
  have nc: "new_components g ! y ! x = (n0, n1, n2)"
    by (simp add: nth_new_components [OF h assms(3,4)] tf rint3_def
          nth_weighted_sum [OF h assms(3,4)] vote_NA_symmetric [OF w] n0_def n1_def n2_def)
  have ne: "g ! y ! x \<noteq> NILL_IDX" "g ! y ! x \<noteq> NULL_IDX"
    using assms(5) by (simp_all add: NA_IDX_def NILL_IDX_def NULL_IDX_def)
  have cell: "g' ! y ! x = lookup_at ((n0 + 1) mod 3, (n1 + 1) mod 3, (n2 + 1) mod 3)"
    using update_grid_cell [OF assms(1-4) ne(1) u] ne(2) assms(5)
    by (simp add: nc twist_def)
  have surrounded:
    "(n0, n1, n2) = (a, b, c) \<and>
     (\<forall>i. valid_index i \<and>
          weight (states ! nat i) = ((a + 1) mod 3, (b + 1) mod 3, (c + 1) mod 3) \<longrightarrow>
          g' ! y ! x = i)"
    if X: "ordinary X" and wX: "weight (states ! nat X) = (a, b, c)"
      and nb: "\<forall>off \<in> set offsets. off \<noteq> (0, 0) \<longrightarrow> neighbor 1 g y x off = X" for X a b c
  proof -
    have v: "valid_index X" using X by (simp add: ordinary_def)
    have wa: "weights_at X = (a, b, c)" using weights_at_states [OF v] wX by simp
    have abc: "a \<in> {0, 1, 2}" "b \<in> {0, 1, 2}" "c \<in> {0, 1, 2}"
      using weights_at_range [OF v] by (simp_all add: wa)
    note vt = vote_NA_surrounded [OF assms(2-5) nb]
    have avg: "(n0, n1, n2) = (a, b, c)"
      using rint_div_ninth [OF abc(1)] rint_div_ninth [OF abc(2)] rint_div_ninth [OF abc(3)]
      by (simp add: n0_def n1_def n2_def vt wa)
    have "g' ! y ! x = i"
      if "valid_index i" "weight (states ! nat i) = ((a + 1) mod 3, (b + 1) mod 3, (c + 1) mod 3)"
      for i
    proof -
      have "weights_at i = ((n0 + 1) mod 3, (n1 + 1) mod 3, (n2 + 1) mod 3)"
        using weights_at_states [OF that(1)] that(2) avg by simp
      then show ?thesis using lookup_at_weights_at [OF that(1)] by (simp add: cell)
    qed
    then show ?thesis using avg by blast
  qed
  show ?thesis using u tf near cell surrounded by blast
qed

theorem twist_rule_witness:
  "valid_grid na_demo \<and> shape na_demo = (3, 3) \<and> na_demo ! 1 ! 1 = NA_IDX \<and> ordinary 1 \<and>
   weight (states ! nat 1) = (2, 0, 1) \<and> valid_index 11 \<and>
   weight (states ! nat 11) = ((2 + 1) mod 3, (0 + 1) mod 3, (1 + 1) mod 3) \<and>
   (\<exists>g' r'. update_grid na_demo (\<lambda>i. i) = Inr (g', r') \<and> g' ! 1 ! 1 = 11)"
proof -
  have v: "valid_grid na_demo"
    by (simp add: valid_grid_def rect_def shape_def na_demo_def valid_index_def)
  have s: "shape na_demo = (3, 3)" by (simp add: shape_def na_demo_def)
  have y: "(1::nat) < 3" by simp
  have n: "na_demo ! 1 ! 1 = NA_IDX" by (simp add: na_demo_def NA_IDX_def)
  have o: "ordinary 1"
    by (simp add: ordinary_def valid_index_def NULL_IDX_def NILL_IDX_def NA_IDX_def)
  have wX: "weight (states ! nat 1) = (2, 0, 1)" by (simp add: states_def)
  have i: "valid_index 11" by (simp add: valid_index_def)
  have wi: "weight (states ! nat 11) = ((2 + 1) mod 3, (0 + 1) mod 3, (1 + 1) mod 3)"
    by code_simp
  have nb: "\<forall>off \<in> set offsets. off \<noteq> (0, 0) \<longrightarrow> neighbor 1 na_demo 1 1 off = 1"
    by (simp add: offsets_def neighbor_def shape_def na_demo_def)
  obtain g' r' n0 n1 n2 where u: "update_grid na_demo (\<lambda>i. i) = Inr (g', r')"
    and c: "\<forall>X a b c.
               ordinary X \<and> weight (states ! nat X) = (a, b, c) \<and>
               (\<forall>off \<in> set offsets. off \<noteq> (0, 0) \<longrightarrow> neighbor 1 na_demo 1 1 off = X) \<longrightarrow>
               (n0, n1, n2) = (a, b, c) \<and>
               (\<forall>i. valid_index i \<and>
                    weight (states ! nat i) = ((a + 1) mod 3, (b + 1) mod 3, (c + 1) mod 3) \<longrightarrow>
                    g' ! 1 ! 1 = i)"
    using twist_rule [OF v s y y n, of "\<lambda>i. i"] by blast
  from c o wX nb i wi have "g' ! 1 ! 1 = 11" by blast
  then show ?thesis using v s n o wX i wi u by blast
qed

subsection \<open>C7\<close>

text \<open>
  C7.  A grid whose cells all carry the same ordinary state (any of the 18 states other
  than Null, Nill and N/A) is returned unchanged by \<open>update_grid\<close>, and the random
  source is left as it was.
\<close>

theorem uniform_grid_fixed_point:
  assumes "ordinary X"
  shows "update_grid (full rows cols X) r = Inr (full rows cols X, r)"
proof (cases "rows = 0")
  case True
  then show ?thesis by (simp add: full_def update_grid_empty)
next
  case False
  then have rows: "0 < rows" by simp
  let ?g = "full rows cols X"
  have h: "has_shape rows cols ?g" by (rule has_shape_full)
  have v: "valid_grid ?g" by (rule valid_grid_full [OF ordinary_valid [OF assms]])
  have X: "X \<noteq> NULL_IDX" "X \<noteq> NILL_IDX" "X \<noteq> NA_IDX"
    using assms by (simp_all add: ordinary_def)
  have "set (nill_indices ?g) = {}"
    using X(2) by (auto simp: nill_indices_def set_argwhere full_def)
  then have nil: "nill_indices ?g = []" by simp
  have "masked ?g (new_components ?g) = ?g"
  proof (rule has_shape_eqI)
    show "has_shape rows cols (masked ?g (new_components ?g))"
      by (intro has_shape_masked has_shape_new_components h rows)
    show "has_shape rows cols ?g" by (rule h)
  next
    fix y x assume yx: "y < rows" "x < cols"
    show "masked ?g (new_components ?g) ! y ! x = ?g ! y ! x"
      using X
      by (simp add: nth_masked [OF h has_shape_new_components [OF h rows] yx]
            nth_full [OF yx] new_components_full [OF assms yx]
            lookup_at_weights_at [OF ordinary_valid [OF assms]])
  qed
  then show ?thesis
    by (simp add: update_grid_valid [OF v] nil)
qed

theorem uniform_grid_fixed_point_witness:
  "ordinary 4 \<and> update_grid (full 3 5 4) (\<lambda>i. i) = Inr (full 3 5 4, \<lambda>i. i)"
proof -
  have o: "ordinary 4"
    by (simp add: ordinary_def valid_index_def NULL_IDX_def NILL_IDX_def NA_IDX_def)
  show ?thesis using uniform_grid_fixed_point [OF o] o by blast
qed

subsection \<open>C8\<close>

text \<open>
  C8.  The 21 weight triples of the state table are pairwise distinct and lie in
  \<open>{0,1,2}\<^sup>3\<close>; the lookup table built from them holds a state index at 21 of its 27
  positions and \<open>-1\<close> at the other 6; and looking up the weight triple of a state index
  between 0 and 20 returns that index.
\<close>

theorem weight_table_injective:
  "length weights = 21 \<and> distinct weights \<and> card (set weights) = 21 \<and>
   set weights \<subseteq> {0, 1, 2} \<times> {0, 1, 2} \<times> {0, 1, 2} \<and>
   length (concat (concat lookup)) = 27 \<and>
   length (filter (\<lambda>v. v = - 1) (concat (concat lookup))) = 6 \<and>
   (\<forall>i. valid_index i \<longrightarrow> lookup_at (weights ! nat i) = i)"
proof -
  have d: "distinct weights" by (simp add: weights_eq)
  have c: "card (set weights) = 21"
    using distinct_card [OF d] by (simp add: length_weights)
  have s: "set weights \<subseteq> {0, 1, 2} \<times> {0, 1, 2} \<times> {0, 1, 2}"
    by (simp add: weights_eq)
  have l: "length (concat (concat lookup)) = 27"
    "length (filter (\<lambda>v. v = - 1) (concat (concat lookup))) = 6"
    by (simp_all add: lookup_eq)
  have "lookup_at (weights ! nat i) = i" if "valid_index i" for i
    using lookup_at_weights_at [OF that] by (simp add: weights_at_valid [OF that])
  then show ?thesis using d c s l by (simp add: length_weights)
qed

theorem weight_table_injective_witness:
  "valid_index 13 \<and> lookup_at (weights ! nat 13) = 13"
proof -
  have v: "valid_index 13" by (simp add: valid_index_def)
  show ?thesis using weight_table_injective v by blast
qed

subsection \<open>C10\<close>

text \<open>
  C10.  At every cell of a valid grid the filter total is the square of the sum of the
  cell's own weight triple; it is zero exactly at the Null cells; and the array given to
  \<open>np.where\<close> for the cells with a zero total has no influence on what the update
  returns: with any array of the grid's shape whose triples are inside the lookup table
  in its place, the run returns what \<open>update_grid\<close> returns, and that is a result, not
  an error.
\<close>

theorem total_filter_zero_only_at_null:
  assumes "valid_grid g" "shape g = (rows, cols)" "y < rows" "x < cols"
  shows "total_filter g ! y ! x =
           (comp0 (weights_at (g ! y ! x)) + comp1 (weights_at (g ! y ! x)) +
            comp2 (weights_at (g ! y ! x)))\<^sup>2 \<and>
         (total_filter g ! y ! x = 0 \<longleftrightarrow> g ! y ! x = NULL_IDX) \<and>
         (\<exists>res. update_grid g r = Inr res) \<and>
         (\<forall>other. has_shape rows cols other \<and> list_all (list_all in_table) other \<longrightarrow>
            finish g (where_nonzero (total_filter g) (weighted_sum g) other) r =
            update_grid g r)"
proof -
  have h: "has_shape rows cols g" by (rule valid_grid_has_shape [OF assms(1,2)])
  have rows: "0 < rows" using assms(3) by simp
  have b: "list_all (list_all in_bounds) g" by (rule valid_grid_in_bounds [OF assms(1)])
  note tf = has_shape_total_filter [OF h rows] and ws = has_shape_weighted_sum [OF h rows]
  have sq: "total_filter g ! y ! x =
           (comp0 (weights_at (g ! y ! x)) + comp1 (weights_at (g ! y ! x)) +
            comp2 (weights_at (g ! y ! x)))\<^sup>2"
    by (rule total_filter_cell [OF h assms(3,4)])
  have zero: "total_filter g ! v ! u = 0 \<longleftrightarrow> g ! v ! u = NULL_IDX" if "v < rows" "u < cols" for v u
    unfolding total_filter_cell [OF h that]
    using weights_at_zero_iff [OF valid_grid_cell [OF assms(1,2) that]] by simp
  have same: "finish g (where_nonzero (total_filter g) (weighted_sum g) other) r = update_grid g r"
    if o: "has_shape rows cols other" and t: "list_all (list_all in_table) other" for other
  proof -
    let ?c = "where_nonzero (total_filter g) (weighted_sum g) other"
    have c: "has_shape rows cols ?c" by (intro has_shape_where_nonzero tf ws o)
    have ot: "in_table (other ! v ! u)" if vu: "v < rows" "u < cols" for v u
    proof -
      have "other ! v \<in> set other" "other ! v ! u \<in> set (other ! v)"
        using o vu by (simp_all add: has_shape_def)
      then show ?thesis using t by (auto simp: list_all_iff)
    qed
    have "in_table (?c ! v ! u)" if vu: "v < rows" "u < cols" for v u
    proof (cases "total_filter g ! v ! u = 0")
      case True
      then show ?thesis by (simp add: nth_where_nonzero [OF tf ws o vu] ot [OF vu])
    next
      case False
      then have "?c ! v ! u = new_components g ! v ! u"
        by (simp add: nth_where_nonzero [OF tf ws o vu] nth_new_components [OF h vu])
      then show ?thesis
        using triple_ok_in_table [OF new_components_ok [OF h b vu]] by simp
    qed
    then have ct: "list_all (list_all in_table) ?c" by (rule list_all_cells [OF c])
    have "masked g ?c = masked g (new_components g)"
    proof (rule has_shape_eqI)
      show "has_shape rows cols (masked g ?c)" by (intro has_shape_masked h c)
      show "has_shape rows cols (masked g (new_components g))"
        by (intro has_shape_masked has_shape_new_components h rows)
    next
      fix v u assume vu: "v < rows" "u < cols"
      show "masked g ?c ! v ! u = masked g (new_components g) ! v ! u"
        using zero [OF vu]
        by (simp add: nth_masked [OF h c vu]
              nth_masked [OF h has_shape_new_components [OF h rows] vu]
              nth_where_nonzero [OF tf ws o vu] nth_new_components [OF h vu])
    qed
    then show ?thesis
      by (simp add: finish_def ct update_grid_valid [OF assms(1)])
  qed
  have ret: "\<exists>res. update_grid g r = Inr res"
    by (simp add: update_grid_valid [OF assms(1)])
  show ?thesis
    using sq zero [OF assms(3,4)] ret same by blast
qed

theorem total_filter_zero_only_at_null_witness:
  "valid_grid null_demo \<and> shape null_demo = (3, 3) \<and>
   (total_filter null_demo ! 1 ! 1 = 0 \<longleftrightarrow> null_demo ! 1 ! 1 = NULL_IDX) \<and>
   null_demo ! 1 ! 1 = NULL_IDX \<and>
   has_shape 3 3 (full 3 3 (2::int, 0::int, 0::int)) \<and>
   list_all (list_all in_table) (full 3 3 (2::int, 0::int, 0::int)) \<and>
   finish null_demo
     (where_nonzero (total_filter null_demo) (weighted_sum null_demo) (full 3 3 (2, 0, 0)))
     (\<lambda>i. i) =
   update_grid null_demo (\<lambda>i. i)"
proof -
  have v: "valid_grid null_demo"
    by (simp add: valid_grid_def rect_def shape_def null_demo_def valid_index_def)
  have s: "shape null_demo = (3, 3)" by (simp add: shape_def null_demo_def)
  have y: "(1::nat) < 3" by simp
  have n: "null_demo ! 1 ! 1 = NULL_IDX" by (simp add: null_demo_def NULL_IDX_def)
  have o: "has_shape 3 3 (full 3 3 (2::int, 0::int, 0::int))" by (rule has_shape_full)
  have i: "list_all (list_all in_table) (full 3 3 (2::int, 0::int, 0::int))"
    by (simp add: full_def in_table_def list_all_iff)
  note t = total_filter_zero_only_at_null [OF v s y y, of "\<lambda>i. i"]
  from t have a: "total_filter null_demo ! 1 ! 1 = 0 \<longleftrightarrow> null_demo ! 1 ! 1 = NULL_IDX"
    by blast
  from t o i have b: "finish null_demo
     (where_nonzero (total_filter null_demo) (weighted_sum null_demo) (full 3 3 (2, 0, 0)))
     (\<lambda>i. i) =
   update_grid null_demo (\<lambda>i. i)"
    by blast
  show ?thesis using v s a n o i b by blast
qed

end
